theory Spec2Isabelle
  imports Complex_Main
begin

section \<open>Numpy primitives used by the rainflow counter\<close>

text \<open>
  The embedding follows \<^verbatim>\<open>src/lib/rainflow/rainflow.py\<close> (function \<^verbatim>\<open>rainflow\<close>) and
  \<^verbatim>\<open>src/degradation_model/cycle_counting_algorithm.py\<close> (method
  \<^verbatim>\<open>CycleCounter.rainflow_process\<close>).

  Numbers: the source computes on float64. Finite values are modelled as \<^typ>\<open>real\<close>
  (exact arithmetic, no rounding, no overflow); the one place where the source leaves the
  finite numbers, a division whose divisor is zero, is modelled by \<open>fdiv\<close> below.

  Exceptions are values: \<open>ValueError\<close> is what \<^verbatim>\<open>np.zeros\<close> raises for a negative
  dimension, \<open>IndexError\<close> what an array access outside its bounds raises.
\<close>

datatype error = ValueError | IndexError

text \<open>
  The result of a float64 division: numpy does not raise on a zero divisor, it returns
  an infinity (non-zero dividend) or NaN (zero dividend) and emits a warning.
\<close>

datatype fval = Fin real | PInf | NInf | NaN

definition fdiv :: "real \<Rightarrow> real \<Rightarrow> fval" where
  "fdiv x y =
     (if y \<noteq> 0 then Fin (x / y)
      else if 0 < x then PInf
      else if x < 0 then NInf
      else NaN)"

definition is_finite :: "fval \<Rightarrow> bool" where
  "is_finite v = (case v of Fin r \<Rightarrow> True | PInf \<Rightarrow> False | NInf \<Rightarrow> False | NaN \<Rightarrow> False)"

text \<open>Sequencing of computations that may raise.\<close>

definition ebind :: "error + 'a \<Rightarrow> ('a \<Rightarrow> error + 'b) \<Rightarrow> error + 'b" where
  "ebind m f = (case m of Inl e \<Rightarrow> Inl e | Inr x \<Rightarrow> f x)"

text \<open>
  Indexing a one-dimensional array with a Python integer: an index \<open>i\<close> with
  \<open>-n \<le> i < 0\<close> addresses cell \<open>n + i\<close>; anything outside \<open>-n \<le> i < n\<close> raises.
\<close>

definition getitem :: "real list \<Rightarrow> int \<Rightarrow> error + real" where
  "getitem a i =
     (if 0 \<le> i \<and> i < int (length a) then Inr (a ! nat i)
      else if - int (length a) \<le> i \<and> i < 0 then Inr (a ! nat (int (length a) + i))
      else Inl IndexError)"

definition setitem :: "real list \<Rightarrow> int \<Rightarrow> real \<Rightarrow> error + real list" where
  "setitem a i v =
     (if 0 \<le> i \<and> i < int (length a) then Inr (a[nat i := v])
      else if - int (length a) \<le> i \<and> i < 0 then Inr (a[nat (int (length a) + i) := v])
      else Inl IndexError)"

section \<open>Data model\<close>

text \<open>
  One column of \<^verbatim>\<open>array_out\<close>: rows 0 to 4 are the load range, the range mean, the
  Goodman-adjusted range, the cycle count and the Goodman-adjusted range with
  \<^verbatim>\<open>flm = 0\<close>.
\<close>

record cycle =
  load_range :: real
  range_mean :: real
  goodman_range :: fval
  cycle_count :: real
  goodman_zero_mean_range :: fval

definition zero_column :: cycle where
  "zero_column = \<lparr>load_range = 0, range_mean = 0, goodman_range = Fin 0,
                  cycle_count = 0, goodman_zero_mean_range = Fin 0\<rparr>"

text \<open>
  The three places of the source that can write a column: the \<^verbatim>\<open>j == 2\<close> branch of the
  while loop (\<open>Partial\<close>), its \<^verbatim>\<open>else\<close> branch (\<open>Full\<close>) and the final for loop
  (\<open>Residual\<close>).
\<close>

datatype path = Partial | Full | Residual

text \<open>
  The state of one call. \<open>tmp_a\<close> is the temporary array \<^verbatim>\<open>a\<close>, \<open>idx_j\<close> its index
  \<^verbatim>\<open>j\<close> (the working stack is \<^verbatim>\<open>a[0..j]\<close>), \<open>idx_po\<close> the output index \<^verbatim>\<open>po\<close>,
  \<open>array_out\<close> the preallocated output, one column per list element. The input index
  \<^verbatim>\<open>pr\<close> always equals the loop counter and is the position in the input list.

  \<open>ghost\<close> is not a variable of the source. It records, in order, every interval that
  reaches one of the three \<^verbatim>\<open>if (lrange > 0)\<close> tests, with the path and its two
  endpoints, whether the test then stores a column or not. It is never read by the model.
\<close>

record state =
  tmp_a :: "real list"
  idx_j :: int
  idx_po :: nat
  array_out :: "cycle list"
  ghost :: "(path \<times> real \<times> real) list"

definition init :: "nat \<Rightarrow> state" where
  "init tot_num =
     \<lparr>tmp_a = replicate tot_num 0, idx_j = - 1, idx_po = 0,
      array_out = replicate (tot_num - 1) zero_column, ghost = []\<rparr>"

section \<open>The rainflow counter\<close>

text \<open>
  The five assignments \<^verbatim>\<open>array_out[0..4, po] = ...\<close> and \<^verbatim>\<open>po += 1\<close> under
  \<^verbatim>\<open>if (lrange > 0)\<close>, which the source repeats in its three paths. A write at a column
  \<open>po\<close> that the buffer does not have raises.
\<close>

definition emit ::
  "path \<Rightarrow> real \<times> real \<Rightarrow> real \<Rightarrow> real \<Rightarrow> fval \<Rightarrow> real \<Rightarrow> fval \<Rightarrow> state \<Rightarrow> error + state" where
  "emit pth pq lrange mean adj_range cnt adj_zero_mean_range s =
     (let s = s\<lparr>ghost := ghost s @ [(pth, pq)]\<rparr> in
      if lrange > 0 then
        (if idx_po s < length (array_out s) then
           Inr (s\<lparr>array_out := (array_out s)[idx_po s :=
                     \<lparr>load_range = lrange, range_mean = mean, goodman_range = adj_range,
                      cycle_count = cnt, goodman_zero_mean_range = adj_zero_mean_range\<rparr>],
                   idx_po := idx_po s + 1\<rparr>)
         else Inl IndexError)
      else Inr s)"

text \<open>
  The guard of the while loop. Python's \<^verbatim>\<open>&\<close> evaluates both operands, so the four
  array reads happen also when \<^verbatim>\<open>j < 2\<close>, with negative indices then.
\<close>

definition while_cond :: "state \<Rightarrow> error + bool" where
  "while_cond s =
     (let a = tmp_a s; j = idx_j s in
      ebind (getitem a (j - 1)) (\<lambda>x1.
      ebind (getitem a (j - 2)) (\<lambda>x2.
      ebind (getitem a j) (\<lambda>x3.
      ebind (getitem a (j - 1)) (\<lambda>x4.
      Inr (j \<ge> 2 \<and> \<bar>x1 - x2\<bar> \<le> \<bar>x3 - x4\<bar>))))))"

text \<open>
  The body of the while loop. It runs only after the guard has read \<^verbatim>\<open>a[j]\<close>,
  \<^verbatim>\<open>a[j - 1]\<close> and \<^verbatim>\<open>a[j - 2]\<close> with \<open>j \<ge> 2\<close>, so its own accesses are in bounds.
\<close>

definition while_body :: "real \<Rightarrow> real \<Rightarrow> real \<Rightarrow> state \<Rightarrow> error + state" where
  "while_body flmargin l_ult uc_mult s =
     (let a = tmp_a s; j = idx_j s;
          lrange = \<bar>a ! nat (j - 1) - a ! nat (j - 2)\<bar> in
      if j = 2 then
        (let mean = (a ! 0 + a ! 1) / 2;
             adj_range = fdiv (lrange * flmargin) (l_ult - \<bar>mean\<bar>);
             adj_zero_mean_range = fdiv (lrange * l_ult) (l_ult - \<bar>mean\<bar>);
             a1 = a[0 := a ! 1];
             a2 = a1[1 := a1 ! 2]
         in emit Partial (a ! 0, a ! 1) lrange mean adj_range uc_mult adj_zero_mean_range
              (s\<lparr>tmp_a := a2, idx_j := 1\<rparr>))
      else
        (let mean = (a ! nat (j - 1) + a ! nat (j - 2)) / 2;
             adj_range = fdiv (lrange * flmargin) (l_ult - \<bar>mean\<bar>);
             adj_zero_mean_range = fdiv (lrange * l_ult) (l_ult - \<bar>mean\<bar>)
         in emit Full (a ! nat (j - 2), a ! nat (j - 1)) lrange mean adj_range 1
              adj_zero_mean_range
              (s\<lparr>tmp_a := a[nat (j - 2) := a ! nat j], idx_j := j - 2\<rparr>)))"

function while_loop :: "real \<Rightarrow> real \<Rightarrow> real \<Rightarrow> state \<Rightarrow> error + state" where
  "while_loop flmargin l_ult uc_mult s =
     (case while_cond s of
        Inl e \<Rightarrow> Inl e
      | Inr b \<Rightarrow>
          if b then
            (case while_body flmargin l_ult uc_mult s of
               Inl e \<Rightarrow> Inl e
             | Inr s' \<Rightarrow> while_loop flmargin l_ult uc_mult s')
          else Inr s)"
  by pat_completeness auto

termination while_loop
proof (relation "measure (\<lambda>(flmargin, l_ult, uc_mult, s). nat (idx_j s))")
  show "wf (measure (\<lambda>(flmargin, l_ult, uc_mult, s). nat (idx_j s)))" by simp
next
  fix flmargin l_ult uc_mult :: real and s s' :: state and b :: bool
  assume c: "while_cond s = Inr b" and b: "b"
    and body: "while_body flmargin l_ult uc_mult s = Inr s'"
  from c b have j2: "2 \<le> idx_j s"
    by (auto simp: while_cond_def ebind_def Let_def split: sum.splits)
  from body j2 have "idx_j s' < idx_j s \<and> 0 \<le> idx_j s'"
    by (auto simp: while_body_def emit_def Let_def split: if_splits)
  then show "((flmargin, l_ult, uc_mult, s'), (flmargin, l_ult, uc_mult, s))
      \<in> measure (\<lambda>(flmargin, l_ult, uc_mult, s). nat (idx_j s))"
    by simp
qed

declare while_loop.simps [simp del]

text \<open>
  The first for loop: \<^verbatim>\<open>j += 1; a[j] = array_ext[pr]; pr += 1\<close>, then the while loop.
\<close>

definition push :: "real \<Rightarrow> state \<Rightarrow> error + state" where
  "push x s =
     (let j = idx_j s + 1 in
      ebind (setitem (tmp_a s) j x) (\<lambda>a'. Inr (s\<lparr>tmp_a := a', idx_j := j\<rparr>)))"

fun main_loop :: "real \<Rightarrow> real \<Rightarrow> real \<Rightarrow> real list \<Rightarrow> state \<Rightarrow> error + state" where
  "main_loop flmargin l_ult uc_mult [] s = Inr s"
| "main_loop flmargin l_ult uc_mult (x # xs) s =
     (case push x s of
        Inl e \<Rightarrow> Inl e
      | Inr s1 \<Rightarrow>
          (case while_loop flmargin l_ult uc_mult s1 of
             Inl e \<Rightarrow> Inl e
           | Inr s2 \<Rightarrow> main_loop flmargin l_ult uc_mult xs s2))"

text \<open>
  The second for loop, \<^verbatim>\<open>for i in range(j)\<close>, over the indices it visits. Its reads
  \<^verbatim>\<open>a[i]\<close> and \<^verbatim>\<open>a[i + 1]\<close> have \<open>i + 1 \<le> j\<close>.
\<close>

fun residual_loop :: "real \<Rightarrow> real \<Rightarrow> real \<Rightarrow> nat list \<Rightarrow> state \<Rightarrow> error + state" where
  "residual_loop flmargin l_ult uc_mult [] s = Inr s"
| "residual_loop flmargin l_ult uc_mult (i # is) s =
     (let a = tmp_a s;
          lrange = \<bar>a ! i - a ! (i + 1)\<bar>;
          mean = (a ! i + a ! (i + 1)) / 2;
          adj_range = fdiv (lrange * flmargin) (l_ult - \<bar>mean\<bar>);
          adj_zero_mean_range = fdiv (lrange * l_ult) (l_ult - \<bar>mean\<bar>)
      in case emit Residual (a ! i, a ! (i + 1)) lrange mean adj_range uc_mult
                adj_zero_mean_range s of
           Inl e \<Rightarrow> Inl e
         | Inr s' \<Rightarrow> residual_loop flmargin l_ult uc_mult is s')"

text \<open>
  The whole function up to its last statement: the state when both loops are done.
  \<^verbatim>\<open>np.zeros((5, tot_num - 1))\<close> raises for an empty input.
\<close>

definition rainflow_run :: "real list \<Rightarrow> real \<Rightarrow> real \<Rightarrow> real \<Rightarrow> error + state" where
  "rainflow_run array_ext flm l_ult uc_mult =
     (let flmargin = l_ult - \<bar>flm\<bar>;
          tot_num = length array_ext in
      if tot_num = 0 then Inl ValueError
      else
        ebind (main_loop flmargin l_ult uc_mult array_ext (init tot_num)) (\<lambda>s.
          residual_loop flmargin l_ult uc_mult [0..<nat (idx_j s)] s))"

text \<open>\<^verbatim>\<open>array_out[:, :po]\<close>: the columns written.\<close>

definition emitted :: "state \<Rightarrow> cycle list" where
  "emitted s = take (idx_po s) (array_out s)"

definition rainflow :: "real list \<Rightarrow> real \<Rightarrow> real \<Rightarrow> real \<Rightarrow> error + cycle list" where
  "rainflow array_ext flm l_ult uc_mult =
     ebind (rainflow_run array_ext flm l_ult uc_mult) (\<lambda>s. Inr (emitted s))"

section \<open>The cycle aggregator\<close>

text \<open>
  \<^verbatim>\<open>CycleCounter.rainflow_process\<close>. The attributes it reads are \<^verbatim>\<open>self.data['series']\<close>,
  \<^verbatim>\<open>self.min_points\<close> and \<^verbatim>\<open>self.max_points\<close>. The last two are what
  \<^verbatim>\<open>lib.peak_det.peak_det.peakdet\<close> returned; that module is not part of the sources, so
  the two tables are inputs here: rows of (position, value).

  \<^verbatim>\<open>np.concatenate\<close> raises \<open>ValueError\<close> when one table is empty (a one-dimensional array
  of shape (0,)) and the other is not; when both are empty the column selection
  \<^verbatim>\<open>array_ext[:, 0]\<close> raises \<open>IndexError\<close>.

  \<^verbatim>\<open>argsort\<close> is modelled by the stable \<open>sort_key\<close>; numpy's default sort may order rows
  with equal keys differently.
\<close>

record counter =
  data_series :: "real list"
  min_points :: "(real \<times> real) list"
  max_points :: "(real \<times> real) list"

record aggregate =
  mean_soc :: fval
  arr_dod :: "real list"
  arr_n :: "real list"
  arr_soc_mean :: "real list"

text \<open>\<^verbatim>\<open>np.mean\<close>: NaN (and a warning) for an empty series.\<close>

definition np_mean :: "real list \<Rightarrow> fval" where
  "np_mean xs = (if xs = [] then NaN else Fin (sum_list xs / real (length xs)))"

text \<open>Division of a float64 by the positive constant 100.\<close>

definition div100 :: "fval \<Rightarrow> fval" where
  "div100 v = (case v of Fin r \<Rightarrow> Fin (r / 100) | PInf \<Rightarrow> PInf | NInf \<Rightarrow> NInf | NaN \<Rightarrow> NaN)"

definition rainflow_process :: "counter \<Rightarrow> error + aggregate" where
  "rainflow_process self =
     (if min_points self = [] \<and> max_points self = [] then Inl IndexError
      else if min_points self = [] \<or> max_points self = [] then Inl ValueError
      else
        (let array_ext = min_points self @ max_points self;
             array_ext = sort_key fst array_ext;
             array_ext = map snd array_ext
         in ebind (rainflow array_ext 0 (10 ^ 16) (1 / 2)) (\<lambda>array_out.
              let array_out = sort_key load_range array_out
              in Inr \<lparr>mean_soc = div100 (np_mean (data_series self)),
                       arr_dod = map (\<lambda>c. load_range c / 100) array_out,
                       arr_n = map cycle_count array_out,
                       arr_soc_mean = map (\<lambda>c. range_mean c / 100) array_out\<rparr>)))"

section \<open>Notions used to state the properties\<close>

text \<open>The working stack: the cells \<^verbatim>\<open>a[0..j]\<close>, oldest point first.\<close>

definition stack :: "state \<Rightarrow> real list" where
  "stack s = take (nat (idx_j s + 1)) (tmp_a s)"

text \<open>
  The state after the first \<open>k\<close> iterations of the first for loop (each a push and the
  while loop that follows it), for an input of at least one point.
\<close>

definition after_pushes :: "real list \<Rightarrow> real \<Rightarrow> real \<Rightarrow> real \<Rightarrow> nat \<Rightarrow> error + state" where
  "after_pushes array_ext flm l_ult uc_mult k =
     main_loop (l_ult - \<bar>flm\<bar>) l_ult uc_mult (take k array_ext) (init (length array_ext))"

text \<open>
  The cycle that the specification attaches to an interval with endpoints \<open>(p, q)\<close>:
  range, mean and the two Goodman corrections by its formulas, and the count weight of
  the path (1 for a full cycle, the partial weight otherwise).
\<close>

definition spec_cycle :: "real \<Rightarrow> real \<Rightarrow> real \<Rightarrow> path \<times> real \<times> real \<Rightarrow> cycle" where
  "spec_cycle flm l_ult uc_mult iv =
     (case iv of (pth, p, q) \<Rightarrow>
        \<lparr>load_range = \<bar>p - q\<bar>,
         range_mean = (p + q) / 2,
         goodman_range = fdiv (\<bar>p - q\<bar> * (l_ult - \<bar>flm\<bar>)) (l_ult - \<bar>(p + q) / 2\<bar>),
         cycle_count = (case pth of Full \<Rightarrow> 1 | Partial \<Rightarrow> uc_mult | Residual \<Rightarrow> uc_mult),
         goodman_zero_mean_range = fdiv (\<bar>p - q\<bar> * l_ult) (l_ult - \<bar>(p + q) / 2\<bar>)\<rparr>)"

text \<open>The intervals of a log with a positive range, and those with range zero.\<close>

definition kept :: "(path \<times> real \<times> real) list \<Rightarrow> (path \<times> real \<times> real) list" where
  "kept g = filter (\<lambda>iv. case iv of (pth, p, q) \<Rightarrow> \<bar>p - q\<bar> > 0) g"

definition discarded :: "(path \<times> real \<times> real) list \<Rightarrow> (path \<times> real \<times> real) list" where
  "discarded g = filter (\<lambda>iv. case iv of (pth, p, q) \<Rightarrow> \<not> \<bar>p - q\<bar> > 0) g"

text \<open>
  How many points an interval takes off the working stack: the full path removes two,
  the partial path one; a residual interval accounts for one of the points left.
\<close>

fun points_of :: "path \<Rightarrow> nat" where
  "points_of Full = 2"
| "points_of Partial = 1"
| "points_of Residual = 1"

definition units :: "(path \<times> real \<times> real) list \<Rightarrow> nat" where
  "units g = sum_list (map (\<lambda>iv. points_of (fst iv)) g)"

definition weights :: "cycle list \<Rightarrow> real" where
  "weights cs = sum_list (map cycle_count cs)"

text \<open>
  The value of the while guard in a state whose stack holds the cells it reads: at least
  three points, and the range of the next-to-last interval is at most that of the last.
\<close>

definition closes :: "state \<Rightarrow> bool" where
  "closes s \<longleftrightarrow>
     2 \<le> idx_j s \<and>
     \<bar>tmp_a s ! nat (idx_j s - 1) - tmp_a s ! nat (idx_j s - 2)\<bar>
       \<le> \<bar>tmp_a s ! nat (idx_j s) - tmp_a s ! nat (idx_j s - 1)\<bar>"

text \<open>
  The three most recent points of the working stack, oldest first: \<^verbatim>\<open>a[j - 2]\<close>,
  \<^verbatim>\<open>a[j - 1]\<close> and \<^verbatim>\<open>a[j]\<close>.
\<close>

definition pt_A :: "state \<Rightarrow> real" where
  "pt_A s = tmp_a s ! nat (idx_j s - 2)"

definition pt_B :: "state \<Rightarrow> real" where
  "pt_B s = tmp_a s ! nat (idx_j s - 1)"

definition pt_C :: "state \<Rightarrow> real" where
  "pt_C s = tmp_a s ! nat (idx_j s)"

text \<open>
  The algorithm on an explicit stack, oldest point first, as a reference for the array
  code. \<open>reduce_stack\<close> applies the 3-point rule to the top of the stack until it no
  longer holds: with \<open>A\<close>, \<open>B\<close>, \<open>C\<close> the three most recent points and
  \<open>|A - B| \<le> |B - C|\<close>, a stack of exactly three points gives up the interval
  \<open>(A, B)\<close> as a partial one and keeps \<open>B, C\<close>; a larger stack gives it up as a full
  one and keeps what was below \<open>A\<close>, then \<open>C\<close>. It returns the intervals given up, in
  order, and the stack left. \<open>feed\<close> pushes the input points one by one, reducing after
  each push. \<open>residuals\<close> are the intervals between neighbours of the stack left at the
  end. \<open>rainflow_intervals\<close> lists all of them in the order of discovery, each with its
  path and its two defining endpoints.
\<close>

function reduce_stack :: "real list \<Rightarrow> (path \<times> real \<times> real) list \<times> real list" where
  "reduce_stack st =
     (if 3 \<le> length st \<and>
         \<bar>st ! (length st - 3) - st ! (length st - 2)\<bar>
           \<le> \<bar>st ! (length st - 2) - st ! (length st - 1)\<bar>
      then
        (if length st = 3 then
           (let r = reduce_stack [st ! 1, st ! 2]
            in ((Partial, st ! 0, st ! 1) # fst r, snd r))
         else
           (let r = reduce_stack (take (length st - 3) st @ [st ! (length st - 1)])
            in ((Full, st ! (length st - 3), st ! (length st - 2)) # fst r, snd r)))
      else ([], st))"
  by pat_completeness auto
termination
  by (relation "measure length") auto

declare reduce_stack.simps [simp del]

fun feed :: "real list \<Rightarrow> real list \<Rightarrow> (path \<times> real \<times> real) list \<times> real list" where
  "feed st [] = ([], st)"
| "feed st (x # xs) =
     (let r = reduce_stack (st @ [x]);
          r' = feed (snd r) xs
      in (fst r @ fst r', snd r'))"

definition residuals :: "real list \<Rightarrow> (path \<times> real \<times> real) list" where
  "residuals st = map (\<lambda>i. (Residual, st ! i, st ! (i + 1))) [0..<length st - 1]"

definition rainflow_intervals :: "real list \<Rightarrow> (path \<times> real \<times> real) list" where
  "rainflow_intervals xs = (let r = feed [] xs in fst r @ residuals (snd r))"

text \<open>
  Invariants of the two loops, for an input of \<open>n\<close> points with values in \<open>X\<close>. The
  output side: the buffer has \<open>n - 1\<close> columns, \<open>po\<close> counts the logged intervals of
  positive range, the columns written are the cycles of those intervals, and the logged
  endpoints are input values. The stack side: \<open>j\<close> stays inside the temporary array and
  the cells up to \<open>j\<close> hold input values.
\<close>

definition out_ok :: "real \<Rightarrow> real \<Rightarrow> real \<Rightarrow> real set \<Rightarrow> nat \<Rightarrow> state \<Rightarrow> bool" where
  "out_ok flm l_ult uc_mult X n s \<longleftrightarrow>
     length (array_out s) = n - 1 \<and>
     idx_po s = length (kept (ghost s)) \<and>
     emitted s = map (spec_cycle flm l_ult uc_mult) (kept (ghost s)) \<and>
     (\<forall>iv \<in> set (ghost s). fst (snd iv) \<in> X \<and> snd (snd iv) \<in> X)"

definition stack_ok :: "real set \<Rightarrow> nat \<Rightarrow> state \<Rightarrow> bool" where
  "stack_ok X n s \<longleftrightarrow>
     length (tmp_a s) = n \<and> - 1 \<le> idx_j s \<and> idx_j s < int n \<and>
     (\<forall>i. int i \<le> idx_j s \<longrightarrow> tmp_a s ! i \<in> X)"

section \<open>Auxiliary facts: the invariants hold\<close>

lemma units_Nil [simp]: "units [] = 0"
  by (simp add: units_def)

lemma units_append [simp]: "units (g @ h) = units g + units h"
  by (simp add: units_def)

lemma units_single [simp]: "units [(pth, pq)] = points_of pth"
  by (simp add: units_def)

lemma points_of_pos: "1 \<le> points_of pth"
  by (cases pth) simp_all

lemma length_le_units: "length g \<le> units g"
proof (induction g)
  case Nil
  show ?case by simp
next
  case (Cons iv g)
  have "1 \<le> points_of (fst iv)" by (rule points_of_pos)
  with Cons show ?case by (simp add: units_def)
qed

lemma length_kept_le_units: "length (kept g) \<le> units g"
proof -
  have "length (kept g) \<le> length g" by (simp add: kept_def)
  also have "\<dots> \<le> units g" by (rule length_le_units)
  finally show ?thesis .
qed

lemma kept_append [simp]: "kept (g @ h) = kept g @ kept h"
  by (simp add: kept_def)

lemma kept_single: "kept [(pth, p, q)] = (if \<bar>p - q\<bar> > 0 then [(pth, p, q)] else [])"
  by (simp add: kept_def)

lemma emitted_ghost_update [simp]: "emitted (s\<lparr>ghost := g\<rparr>) = emitted s"
  by (simp add: emitted_def)

lemma emitted_stack_update [simp]: "emitted (s\<lparr>tmp_a := a', idx_j := j'\<rparr>) = emitted s"
  by (simp add: emitted_def)

lemma emitted_store:
  "idx_po s < length (array_out s) \<Longrightarrow>
   emitted (s\<lparr>array_out := (array_out s)[idx_po s := c], idx_po := idx_po s + 1\<rparr>)
     = emitted s @ [c]"
  by (simp add: emitted_def take_Suc_conv_app_nth)

lemma emit_ok:
  assumes ok: "out_ok flm l_ult uc_mult X n s"
    and room: "units (ghost s) + 2 \<le> n"
    and pX: "p \<in> X" and qX: "q \<in> X"
    and r: "r = \<bar>p - q\<bar>"
    and cy: "spec_cycle flm l_ult uc_mult (pth, p, q) =
       \<lparr>load_range = r, range_mean = m, goodman_range = g, cycle_count = c,
        goodman_zero_mean_range = z\<rparr>"
  shows "\<exists>s'. emit pth (p, q) r m g c z s = Inr s' \<and> out_ok flm l_ult uc_mult X n s' \<and>
           ghost s' = ghost s @ [(pth, p, q)] \<and> tmp_a s' = tmp_a s \<and> idx_j s' = idx_j s"
proof (cases "r > 0")
  case False
  then have "emit pth (p, q) r m g c z s = Inr (s\<lparr>ghost := ghost s @ [(pth, p, q)]\<rparr>)"
    by (simp add: emit_def Let_def)
  moreover from False r have "kept [(pth, p, q)] = []"
    by (simp add: kept_single)
  ultimately show ?thesis
    using ok pX qX by (simp add: out_ok_def)
next
  case True
  from ok have len: "length (array_out s) = n - 1"
    and po: "idx_po s = length (kept (ghost s))"
    and em: "emitted s = map (spec_cycle flm l_ult uc_mult) (kept (ghost s))"
    by (simp_all add: out_ok_def)
  have "length (kept (ghost s)) \<le> units (ghost s)" by (rule length_kept_le_units)
  with po room len have lt: "idx_po s < length (array_out s)" by simp
  let ?cy = "\<lparr>load_range = r, range_mean = m, goodman_range = g, cycle_count = c,
        goodman_zero_mean_range = z\<rparr>"
  let ?s' = "s\<lparr>ghost := ghost s @ [(pth, p, q)],
               array_out := (array_out s)[idx_po s := ?cy], idx_po := idx_po s + 1\<rparr>"
  from True lt have e: "emit pth (p, q) r m g c z s = Inr ?s'"
    by (simp add: emit_def Let_def)
  from True r have k: "kept [(pth, p, q)] = [(pth, p, q)]"
    by (simp add: kept_single)
  from lt have "emitted ?s' = emitted s @ [?cy]"
    using emitted_store [of "s\<lparr>ghost := ghost s @ [(pth, p, q)]\<rparr>" ?cy] by simp
  with em cy k have "emitted ?s' = map (spec_cycle flm l_ult uc_mult) (kept (ghost ?s'))"
    by simp
  with ok pX qX k have "out_ok flm l_ult uc_mult X n ?s'"
    by (simp add: out_ok_def)
  with e show ?thesis by simp
qed

lemma out_ok_stack_update [simp]:
  "out_ok flm l_ult uc_mult X n (s\<lparr>tmp_a := a', idx_j := j'\<rparr>) = out_ok flm l_ult uc_mult X n s"
  by (simp add: out_ok_def)

lemma while_cond_ok:
  assumes st: "stack_ok X n s" and n2: "2 \<le> n" and j0: "0 \<le> idx_j s"
  shows "while_cond s = Inr (closes s)"
proof -
  from st have len: "length (tmp_a s) = n" and jn: "idx_j s < int n"
    by (simp_all add: stack_ok_def)
  show ?thesis
  proof (cases "2 \<le> idx_j s")
    case True
    with len jn show ?thesis
      by (simp add: while_cond_def closes_def getitem_def ebind_def Let_def)
  next
    case False
    with len jn j0 n2 show ?thesis
      by (auto simp: while_cond_def closes_def getitem_def ebind_def Let_def)
  qed
qed

lemma while_body_ok:
  assumes st: "stack_ok X n s" and ok: "out_ok flm l_ult uc_mult X n s"
    and j2: "2 \<le> idx_j s"
    and cnt: "int (units (ghost s)) + idx_j s + 1 = int k" and kn: "k \<le> n"
  shows "\<exists>s'. while_body (l_ult - \<bar>flm\<bar>) l_ult uc_mult s = Inr s' \<and>
           stack_ok X n s' \<and> out_ok flm l_ult uc_mult X n s' \<and>
           int (units (ghost s')) + idx_j s' + 1 = int k \<and>
           0 \<le> idx_j s' \<and> idx_j s' < idx_j s"
proof -
  from st have len: "length (tmp_a s) = n" and jn: "idx_j s < int n"
    and inX: "\<And>i. int i \<le> idx_j s \<Longrightarrow> tmp_a s ! i \<in> X"
    by (simp_all add: stack_ok_def)
  from cnt kn j2 have room: "units (ghost s) + 2 \<le> n" by linarith
  let ?a = "tmp_a s" and ?j = "idx_j s"
  show ?thesis
  proof (cases "?j = 2")
    case True
    let ?a2 = "(?a[0 := ?a ! 1])[1 := (?a[0 := ?a ! 1]) ! 2]"
    let ?s1 = "s\<lparr>tmp_a := ?a2, idx_j := 1\<rparr>"
    have p: "?a ! 0 \<in> X" and q: "?a ! 1 \<in> X" and c: "?a ! 2 \<in> X"
      using inX [of 0] inX [of 1] inX [of 2] True by simp_all
    have ok1: "out_ok flm l_ult uc_mult X n ?s1" using ok by simp
    have room1: "units (ghost ?s1) + 2 \<le> n" using room by simp
    have cy: "spec_cycle flm l_ult uc_mult (Partial, ?a ! 0, ?a ! 1) =
        \<lparr>load_range = \<bar>?a ! 1 - ?a ! 0\<bar>, range_mean = (?a ! 0 + ?a ! 1) / 2,
         goodman_range = fdiv (\<bar>?a ! 1 - ?a ! 0\<bar> * (l_ult - \<bar>flm\<bar>))
                            (l_ult - \<bar>(?a ! 0 + ?a ! 1) / 2\<bar>),
         cycle_count = uc_mult,
         goodman_zero_mean_range = fdiv (\<bar>?a ! 1 - ?a ! 0\<bar> * l_ult)
                            (l_ult - \<bar>(?a ! 0 + ?a ! 1) / 2\<bar>)\<rparr>"
      by (simp add: spec_cycle_def abs_minus_commute)
    from emit_ok [OF ok1 room1 p q _ cy]
    obtain s' where e: "emit Partial (?a ! 0, ?a ! 1) \<bar>?a ! 1 - ?a ! 0\<bar> ((?a ! 0 + ?a ! 1) / 2)
          (fdiv (\<bar>?a ! 1 - ?a ! 0\<bar> * (l_ult - \<bar>flm\<bar>)) (l_ult - \<bar>(?a ! 0 + ?a ! 1) / 2\<bar>))
          uc_mult
          (fdiv (\<bar>?a ! 1 - ?a ! 0\<bar> * l_ult) (l_ult - \<bar>(?a ! 0 + ?a ! 1) / 2\<bar>)) ?s1 = Inr s'"
      and ok': "out_ok flm l_ult uc_mult X n s'"
      and g': "ghost s' = ghost ?s1 @ [(Partial, ?a ! 0, ?a ! 1)]"
      and a': "tmp_a s' = tmp_a ?s1" and j': "idx_j s' = idx_j ?s1"
      by (auto simp: abs_minus_commute)
    from True e have body: "while_body (l_ult - \<bar>flm\<bar>) l_ult uc_mult s = Inr s'"
      by (simp add: while_body_def Let_def)
    have "stack_ok X n s'"
      unfolding stack_ok_def
    proof (intro conjI allI impI)
      show "length (tmp_a s') = n" using a' len by simp
      show "- 1 \<le> idx_j s'" using j' by simp
      show "idx_j s' < int n" using j' jn True by simp
      fix i assume "int i \<le> idx_j s'"
      with j' have "i = 0 \<or> i = 1" by auto
      then show "tmp_a s' ! i \<in> X"
        using a' len jn True q c by (auto simp: nth_list_update)
    qed
    moreover have "int (units (ghost s')) + idx_j s' + 1 = int k"
      using g' j' cnt True by simp
    ultimately show ?thesis using body ok' j' True by auto
  next
    case False
    let ?p = "?a ! nat (?j - 2)" and ?q = "?a ! nat (?j - 1)"
    let ?s1 = "s\<lparr>tmp_a := ?a[nat (?j - 2) := ?a ! nat ?j], idx_j := ?j - 2\<rparr>"
    have p: "?p \<in> X" and q: "?q \<in> X" and c: "?a ! nat ?j \<in> X"
      using inX [of "nat (?j - 2)"] inX [of "nat (?j - 1)"] inX [of "nat ?j"] j2 by simp_all
    have ok1: "out_ok flm l_ult uc_mult X n ?s1" using ok by simp
    have room1: "units (ghost ?s1) + 2 \<le> n" using room by simp
    have cy: "spec_cycle flm l_ult uc_mult (Full, ?p, ?q) =
        \<lparr>load_range = \<bar>?q - ?p\<bar>, range_mean = (?q + ?p) / 2,
         goodman_range = fdiv (\<bar>?q - ?p\<bar> * (l_ult - \<bar>flm\<bar>)) (l_ult - \<bar>(?q + ?p) / 2\<bar>),
         cycle_count = 1,
         goodman_zero_mean_range = fdiv (\<bar>?q - ?p\<bar> * l_ult) (l_ult - \<bar>(?q + ?p) / 2\<bar>)\<rparr>"
      by (simp add: spec_cycle_def abs_minus_commute add.commute)
    from emit_ok [OF ok1 room1 p q _ cy]
    obtain s' where e: "emit Full (?p, ?q) \<bar>?q - ?p\<bar> ((?q + ?p) / 2)
          (fdiv (\<bar>?q - ?p\<bar> * (l_ult - \<bar>flm\<bar>)) (l_ult - \<bar>(?q + ?p) / 2\<bar>))
          1
          (fdiv (\<bar>?q - ?p\<bar> * l_ult) (l_ult - \<bar>(?q + ?p) / 2\<bar>)) ?s1 = Inr s'"
      and ok': "out_ok flm l_ult uc_mult X n s'"
      and g': "ghost s' = ghost ?s1 @ [(Full, ?p, ?q)]"
      and a': "tmp_a s' = tmp_a ?s1" and j': "idx_j s' = idx_j ?s1"
      by (auto simp: abs_minus_commute)
    from False e have body: "while_body (l_ult - \<bar>flm\<bar>) l_ult uc_mult s = Inr s'"
      by (simp add: while_body_def Let_def)
    have "stack_ok X n s'"
      unfolding stack_ok_def
    proof (intro conjI allI impI)
      show "length (tmp_a s') = n" using a' len by simp
      show "- 1 \<le> idx_j s'" using j' j2 by simp
      show "idx_j s' < int n" using j' jn by simp
      fix i assume "int i \<le> idx_j s'"
      with j' have i: "int i \<le> ?j - 2" by simp
      show "tmp_a s' ! i \<in> X"
      proof (cases "i = nat (?j - 2)")
        case True
        with a' len jn j2 c show ?thesis by simp
      next
        case False
        from i have "int i \<le> ?j" by simp
        then have "?a ! i \<in> X" by (rule inX)
        with a' False show ?thesis by simp
      qed
    qed
    moreover have "int (units (ghost s')) + idx_j s' + 1 = int k"
      using g' j' cnt by simp
    ultimately show ?thesis using body ok' j' j2 by auto
  qed
qed

lemma while_loop_ok:
  assumes n2: "2 \<le> n" and kn: "k \<le> n"
  shows "stack_ok X n s \<Longrightarrow> out_ok flm l_ult uc_mult X n s \<Longrightarrow> 0 \<le> idx_j s \<Longrightarrow>
         int (units (ghost s)) + idx_j s + 1 = int k \<Longrightarrow>
         \<exists>s'. while_loop (l_ult - \<bar>flm\<bar>) l_ult uc_mult s = Inr s' \<and>
           stack_ok X n s' \<and> out_ok flm l_ult uc_mult X n s' \<and>
           int (units (ghost s')) + idx_j s' + 1 = int k \<and>
           0 \<le> idx_j s' \<and> \<not> closes s'"
proof (induction "nat (idx_j s)" arbitrary: s rule: less_induct)
  case less
  from less.prems(1) n2 less.prems(3) have c: "while_cond s = Inr (closes s)"
    by (rule while_cond_ok)
  show ?case
  proof (cases "closes s")
    case False
    with c have "while_loop (l_ult - \<bar>flm\<bar>) l_ult uc_mult s = Inr s"
      by (simp add: while_loop.simps [of _ _ _ s])
    with False less.prems show ?thesis by simp
  next
    case True
    then have j2: "2 \<le> idx_j s" by (simp add: closes_def)
    from while_body_ok [OF less.prems(1) less.prems(2) j2 less.prems(4) kn]
    obtain s1 where b: "while_body (l_ult - \<bar>flm\<bar>) l_ult uc_mult s = Inr s1"
      and st1: "stack_ok X n s1" and ok1: "out_ok flm l_ult uc_mult X n s1"
      and cnt1: "int (units (ghost s1)) + idx_j s1 + 1 = int k"
      and j1: "0 \<le> idx_j s1" and dec: "idx_j s1 < idx_j s"
      by blast
    from dec j1 have "nat (idx_j s1) < nat (idx_j s)" by simp
    from less.hyps [OF this st1 ok1 j1 cnt1]
    obtain s' where "while_loop (l_ult - \<bar>flm\<bar>) l_ult uc_mult s1 = Inr s'"
      and post: "stack_ok X n s'" "out_ok flm l_ult uc_mult X n s'"
        "int (units (ghost s')) + idx_j s' + 1 = int k" "0 \<le> idx_j s'" "\<not> closes s'"
      by blast
    with c True b have "while_loop (l_ult - \<bar>flm\<bar>) l_ult uc_mult s = Inr s'"
      by (simp add: while_loop.simps [of _ _ _ s])
    with post show ?thesis by simp
  qed
qed

lemma push_ok:
  assumes st: "stack_ok X n s" and ok: "out_ok flm l_ult uc_mult X n s"
    and cnt: "int (units (ghost s)) + idx_j s + 1 = int k" and kn: "k < n" and x: "x \<in> X"
  shows "\<exists>s'. push x s = Inr s' \<and> stack_ok X n s' \<and> out_ok flm l_ult uc_mult X n s' \<and>
           int (units (ghost s')) + idx_j s' + 1 = int (Suc k) \<and> 0 \<le> idx_j s'"
proof -
  from st have len: "length (tmp_a s) = n" and j1: "- 1 \<le> idx_j s"
    and inX: "\<And>i. int i \<le> idx_j s \<Longrightarrow> tmp_a s ! i \<in> X"
    by (simp_all add: stack_ok_def)
  from cnt kn have jn: "idx_j s + 1 < int n" by linarith
  let ?s' = "s\<lparr>tmp_a := (tmp_a s)[nat (idx_j s + 1) := x], idx_j := idx_j s + 1\<rparr>"
  from len j1 jn have p: "push x s = Inr ?s'"
    by (simp add: push_def setitem_def ebind_def Let_def)
  have "stack_ok X n ?s'"
    unfolding stack_ok_def
  proof (intro conjI allI impI)
    show "length (tmp_a ?s') = n" using len by simp
    show "- 1 \<le> idx_j ?s'" using j1 by simp
    show "idx_j ?s' < int n" using jn by simp
    fix i assume i: "int i \<le> idx_j ?s'"
    show "tmp_a ?s' ! i \<in> X"
    proof (cases "i = nat (idx_j s + 1)")
      case True
      with len jn j1 x show ?thesis by simp
    next
      case False
      with i j1 have "int i \<le> idx_j s" by auto
      then have "tmp_a s ! i \<in> X" by (rule inX)
      with False show ?thesis by simp
    qed
  qed
  with p ok cnt j1 show ?thesis by simp
qed

lemma main_loop_ok:
  assumes n2: "2 \<le> n"
  shows "stack_ok X n s \<Longrightarrow> out_ok flm l_ult uc_mult X n s \<Longrightarrow>
         int (units (ghost s)) + idx_j s + 1 = int k \<Longrightarrow> k + length ys \<le> n \<Longrightarrow>
         set ys \<subseteq> X \<Longrightarrow> ys \<noteq> [] \<Longrightarrow>
         \<exists>s'. main_loop (l_ult - \<bar>flm\<bar>) l_ult uc_mult ys s = Inr s' \<and>
           stack_ok X n s' \<and> out_ok flm l_ult uc_mult X n s' \<and>
           int (units (ghost s')) + idx_j s' + 1 = int (k + length ys) \<and>
           0 \<le> idx_j s' \<and> \<not> closes s'"
proof (induction ys arbitrary: s k)
  case Nil
  then show ?case by simp
next
  case (Cons y ys)
  from Cons.prems(4) have kn: "k < n" and kn': "Suc k \<le> n" by simp_all
  from Cons.prems(5) have y: "y \<in> X" by simp
  from push_ok [OF Cons.prems(1) Cons.prems(2) Cons.prems(3) kn y]
  obtain s1 where p: "push y s = Inr s1" and st1: "stack_ok X n s1"
    and ok1: "out_ok flm l_ult uc_mult X n s1"
    and cnt1: "int (units (ghost s1)) + idx_j s1 + 1 = int (Suc k)" and j1: "0 \<le> idx_j s1"
    by blast
  from while_loop_ok [OF n2 kn' st1 ok1 j1 cnt1]
  obtain s2 where w: "while_loop (l_ult - \<bar>flm\<bar>) l_ult uc_mult s1 = Inr s2"
    and st2: "stack_ok X n s2" and ok2: "out_ok flm l_ult uc_mult X n s2"
    and cnt2: "int (units (ghost s2)) + idx_j s2 + 1 = int (Suc k)"
    and j2: "0 \<le> idx_j s2" and nc: "\<not> closes s2"
    by blast
  show ?case
  proof (cases "ys = []")
    case True
    with p w st2 ok2 cnt2 j2 nc show ?thesis by simp
  next
    case False
    from Cons.prems(4) have "Suc k + length ys \<le> n" by simp
    moreover from Cons.prems(5) have "set ys \<subseteq> X" by simp
    ultimately obtain s' where "main_loop (l_ult - \<bar>flm\<bar>) l_ult uc_mult ys s2 = Inr s'"
      and post: "stack_ok X n s'" "out_ok flm l_ult uc_mult X n s'"
        "int (units (ghost s')) + idx_j s' + 1 = int (Suc k + length ys)"
        "0 \<le> idx_j s'" "\<not> closes s'"
      using Cons.IH [OF st2 ok2 cnt2 _ _ False] by blast
    with p w have "main_loop (l_ult - \<bar>flm\<bar>) l_ult uc_mult (y # ys) s = Inr s'"
      by simp
    with post show ?thesis by simp
  qed
qed

lemma init_ok:
  "stack_ok X n (init n)" "out_ok flm l_ult uc_mult X n (init n)"
  "int (units (ghost (init n))) + idx_j (init n) + 1 = int 0"
  by (simp_all add: stack_ok_def out_ok_def init_def emitted_def kept_def)

lemma residual_loop_ok:
  "stack_ok X n s \<Longrightarrow> out_ok flm l_ult uc_mult X n s \<Longrightarrow>
   \<forall>i \<in> set is. int i + 1 \<le> idx_j s \<Longrightarrow> units (ghost s) + length is + 1 \<le> n \<Longrightarrow>
   \<exists>s'. residual_loop (l_ult - \<bar>flm\<bar>) l_ult uc_mult is s = Inr s' \<and>
     stack_ok X n s' \<and> out_ok flm l_ult uc_mult X n s' \<and>
     units (ghost s') = units (ghost s) + length is \<and> idx_j s' = idx_j s"
proof (induction "is" arbitrary: s)
  case Nil
  then show ?case by simp
next
  case (Cons i "is")
  let ?a = "tmp_a s"
  from Cons.prems(1) have inX: "\<And>i. int i \<le> idx_j s \<Longrightarrow> tmp_a s ! i \<in> X"
    by (simp add: stack_ok_def)
  from Cons.prems(3) have i1: "int i + 1 \<le> idx_j s" by simp
  have p: "?a ! i \<in> X" and q: "?a ! (i + 1) \<in> X"
    using inX [of i] inX [of "i + 1"] i1 by simp_all
  from Cons.prems(4) have room: "units (ghost s) + 2 \<le> n" by simp
  have cy: "spec_cycle flm l_ult uc_mult (Residual, ?a ! i, ?a ! (i + 1)) =
        \<lparr>load_range = \<bar>?a ! i - ?a ! (i + 1)\<bar>, range_mean = (?a ! i + ?a ! (i + 1)) / 2,
         goodman_range = fdiv (\<bar>?a ! i - ?a ! (i + 1)\<bar> * (l_ult - \<bar>flm\<bar>))
                            (l_ult - \<bar>(?a ! i + ?a ! (i + 1)) / 2\<bar>),
         cycle_count = uc_mult,
         goodman_zero_mean_range = fdiv (\<bar>?a ! i - ?a ! (i + 1)\<bar> * l_ult)
                            (l_ult - \<bar>(?a ! i + ?a ! (i + 1)) / 2\<bar>)\<rparr>"
    by (simp add: spec_cycle_def)
  from emit_ok [OF Cons.prems(2) room p q refl cy]
  obtain s1 where e: "emit Residual (?a ! i, ?a ! (i + 1)) \<bar>?a ! i - ?a ! (i + 1)\<bar>
          ((?a ! i + ?a ! (i + 1)) / 2)
          (fdiv (\<bar>?a ! i - ?a ! (i + 1)\<bar> * (l_ult - \<bar>flm\<bar>))
                (l_ult - \<bar>(?a ! i + ?a ! (i + 1)) / 2\<bar>))
          uc_mult
          (fdiv (\<bar>?a ! i - ?a ! (i + 1)\<bar> * l_ult) (l_ult - \<bar>(?a ! i + ?a ! (i + 1)) / 2\<bar>))
          s = Inr s1"
    and ok1: "out_ok flm l_ult uc_mult X n s1"
    and g1: "ghost s1 = ghost s @ [(Residual, ?a ! i, ?a ! (i + 1))]"
    and a1: "tmp_a s1 = tmp_a s" and j1: "idx_j s1 = idx_j s"
    by blast
  from Cons.prems(1) a1 j1 have st1: "stack_ok X n s1" by (simp add: stack_ok_def)
  from Cons.prems(3) j1 have all1: "\<forall>i \<in> set is. int i + 1 \<le> idx_j s1" by simp
  from Cons.prems(4) g1 have room1: "units (ghost s1) + length is + 1 \<le> n" by simp
  from Cons.IH [OF st1 ok1 all1 room1]
  obtain s' where r: "residual_loop (l_ult - \<bar>flm\<bar>) l_ult uc_mult is s1 = Inr s'"
    and post: "stack_ok X n s'" "out_ok flm l_ult uc_mult X n s'"
      "units (ghost s') = units (ghost s1) + length is" "idx_j s' = idx_j s1"
    by blast
  from e r have "residual_loop (l_ult - \<bar>flm\<bar>) l_ult uc_mult (i # is) s = Inr s'"
    by (simp add: Let_def)
  with post g1 j1 show ?case by simp
qed

lemma rainflow_run_ok:
  assumes n2: "2 \<le> length xs"
  shows "\<exists>s. rainflow_run xs flm l_ult uc_mult = Inr s \<and>
           out_ok flm l_ult uc_mult (set xs) (length xs) s \<and>
           units (ghost s) + 1 = length xs"
proof -
  let ?n = "length xs"
  from n2 have ne: "xs \<noteq> []" by auto
  have "0 + length xs \<le> ?n" by simp
  from main_loop_ok [OF n2 init_ok(1) init_ok(2) init_ok(3) this subset_refl ne]
  obtain s1 where m: "main_loop (l_ult - \<bar>flm\<bar>) l_ult uc_mult xs (init ?n) = Inr s1"
    and st1: "stack_ok (set xs) ?n s1" and ok1: "out_ok flm l_ult uc_mult (set xs) ?n s1"
    and cnt1: "int (units (ghost s1)) + idx_j s1 + 1 = int (0 + ?n)" and j1: "0 \<le> idx_j s1"
    by blast
  have all1: "\<forall>i \<in> set [0..<nat (idx_j s1)]. int i + 1 \<le> idx_j s1" by auto
  from cnt1 j1 have room1: "units (ghost s1) + length [0..<nat (idx_j s1)] + 1 \<le> ?n"
    by simp
  from residual_loop_ok [OF st1 ok1 all1 room1]
  obtain s where r: "residual_loop (l_ult - \<bar>flm\<bar>) l_ult uc_mult [0..<nat (idx_j s1)] s1 = Inr s"
    and ok: "out_ok flm l_ult uc_mult (set xs) ?n s"
    and u: "units (ghost s) = units (ghost s1) + length [0..<nat (idx_j s1)]"
    by blast
  from ne m r have "rainflow_run xs flm l_ult uc_mult = Inr s"
    by (simp add: rainflow_run_def ebind_def Let_def)
  moreover from u cnt1 j1 have "units (ghost s) + 1 = ?n" by simp
  ultimately show ?thesis using ok by simp
qed

lemma rainflow_ok:
  assumes n2: "2 \<le> length xs"
  shows "\<exists>s. rainflow_run xs flm l_ult uc_mult = Inr s \<and>
           rainflow xs flm l_ult uc_mult = Inr (emitted s) \<and>
           out_ok flm l_ult uc_mult (set xs) (length xs) s \<and>
           units (ghost s) + 1 = length xs"
proof -
  from rainflow_run_ok [OF n2]
  obtain s where "rainflow_run xs flm l_ult uc_mult = Inr s"
    and "out_ok flm l_ult uc_mult (set xs) (length xs) s" and "units (ghost s) + 1 = length xs"
    by blast
  then show ?thesis by (auto simp: rainflow_def ebind_def)
qed

lemma kept_positive: "iv \<in> set (kept g) \<Longrightarrow> 0 < \<bar>fst (snd iv) - snd (snd iv)\<bar>"
  by (auto simp: kept_def)

lemma kept_subset: "set (kept g) \<subseteq> set g"
  by (auto simp: kept_def)

lemma fdiv_zero_not_finite: "\<not> is_finite (fdiv x 0)"
  by (simp add: fdiv_def is_finite_def)

lemma spec_cycle_goodman:
  "goodman_range (spec_cycle flm l_ult uc_mult iv) =
     fdiv (load_range (spec_cycle flm l_ult uc_mult iv) * (l_ult - \<bar>flm\<bar>))
          (l_ult - \<bar>range_mean (spec_cycle flm l_ult uc_mult iv)\<bar>)"
  "goodman_zero_mean_range (spec_cycle flm l_ult uc_mult iv) =
     fdiv (load_range (spec_cycle flm l_ult uc_mult iv) * l_ult)
          (l_ult - \<bar>range_mean (spec_cycle flm l_ult uc_mult iv)\<bar>)"
  by (simp_all add: spec_cycle_def split_beta)

lemma spec_cycle_count:
  "cycle_count (spec_cycle flm l_ult uc_mult iv) = 1 \<or>
   cycle_count (spec_cycle flm l_ult uc_mult iv) = uc_mult"
  by (cases "fst iv") (simp_all add: spec_cycle_def split_beta)

lemma units_Cons: "units (iv # g) = points_of (fst iv) + units g"
  by (simp add: units_def)

lemma units_kept_discarded: "units (kept g) + units (discarded g) = units g"
  by (induction g) (auto simp: kept_def discarded_def units_Cons)

lemma half_weight_points:
  "2 * cycle_count (spec_cycle flm l_ult (1 / 2) iv) = real (points_of (fst iv))"
  by (cases "fst iv") (simp_all add: spec_cycle_def split_beta)

lemma half_weights_units:
  "2 * weights (map (spec_cycle flm l_ult (1 / 2)) g) = real (units g)"
proof (induction g)
  case Nil
  show ?case by (simp add: weights_def)
next
  case (Cons iv g)
  have "2 * weights (map (spec_cycle flm l_ult (1 / 2)) (iv # g)) =
      2 * cycle_count (spec_cycle flm l_ult (1 / 2) iv) +
      2 * weights (map (spec_cycle flm l_ult (1 / 2)) g)"
    by (simp add: weights_def)
  also have "\<dots> = real (points_of (fst iv)) + real (units g)"
    by (simp only: half_weight_points Cons.IH)
  also have "\<dots> = real (units (iv # g))"
    by (simp add: units_Cons)
  finally show ?case .
qed

lemma take_Suc_update: "m < length xs \<Longrightarrow> take (Suc m) (xs[m := v]) = take m xs @ [v]"
  by (simp add: take_Suc_conv_app_nth)

lemma take_two: "2 \<le> length xs \<Longrightarrow> take 2 xs = [xs ! 0, xs ! 1]"
proof -
  assume "2 \<le> length xs"
  then obtain x y zs where "xs = x # y # zs"
    by (cases xs; cases "tl xs") auto
  then show ?thesis by simp
qed

lemma closes_points:
  "closes s \<longleftrightarrow> 2 \<le> idx_j s \<and> \<bar>pt_A s - pt_B s\<bar> \<le> \<bar>pt_B s - pt_C s\<bar>"
  by (simp add: closes_def pt_A_def pt_B_def pt_C_def abs_minus_commute)

lemma emit_result:
  assumes "idx_po s < length (array_out s)"
  shows "\<exists>s'. emit pth (p, q) r m g c z s = Inr s' \<and>
           tmp_a s' = tmp_a s \<and> idx_j s' = idx_j s \<and>
           ghost s' = ghost s @ [(pth, p, q)] \<and>
           emitted s' = emitted s @
             (if r > 0 then [\<lparr>load_range = r, range_mean = m, goodman_range = g,
                               cycle_count = c, goodman_zero_mean_range = z\<rparr>] else [])"
  using assms by (simp add: emit_def Let_def emitted_def take_Suc_conv_app_nth)

lemma while_body_full:
  assumes j2: "2 < idx_j s" and jn: "idx_j s < int (length (tmp_a s))"
    and room: "idx_po s < length (array_out s)"
  shows "\<exists>s'. while_body (l_ult - \<bar>flm\<bar>) l_ult uc_mult s = Inr s' \<and>
           stack s' = take (nat (idx_j s - 2)) (stack s) @ [pt_C s] \<and>
           ghost s' = ghost s @ [(Full, pt_A s, pt_B s)] \<and>
           emitted s' = emitted s @
             (if pt_A s \<noteq> pt_B s
              then [spec_cycle flm l_ult uc_mult (Full, pt_A s, pt_B s)] else [])"
proof -
  let ?a = "tmp_a s" and ?j = "idx_j s"
  let ?s1 = "s\<lparr>tmp_a := ?a[nat (?j - 2) := ?a ! nat ?j], idx_j := ?j - 2\<rparr>"
  let ?r = "\<bar>pt_B s - pt_A s\<bar>" and ?m = "(pt_B s + pt_A s) / 2"
  let ?cy = "\<lparr>load_range = ?r, range_mean = ?m,
                goodman_range = fdiv (?r * (l_ult - \<bar>flm\<bar>)) (l_ult - \<bar>?m\<bar>),
                cycle_count = 1,
                goodman_zero_mean_range = fdiv (?r * l_ult) (l_ult - \<bar>?m\<bar>)\<rparr>"
  from room have "idx_po ?s1 < length (array_out ?s1)" by simp
  from emit_result [OF this, of Full "pt_A s" "pt_B s" ?r ?m
      "fdiv (?r * (l_ult - \<bar>flm\<bar>)) (l_ult - \<bar>?m\<bar>)" 1 "fdiv (?r * l_ult) (l_ult - \<bar>?m\<bar>)"]
  obtain s' where e: "emit Full (pt_A s, pt_B s) ?r ?m
        (fdiv (?r * (l_ult - \<bar>flm\<bar>)) (l_ult - \<bar>?m\<bar>)) 1
        (fdiv (?r * l_ult) (l_ult - \<bar>?m\<bar>)) ?s1 = Inr s'"
    and a': "tmp_a s' = tmp_a ?s1" and j': "idx_j s' = idx_j ?s1"
    and g': "ghost s' = ghost ?s1 @ [(Full, pt_A s, pt_B s)]"
    and em: "emitted s' = emitted ?s1 @ (if ?r > 0 then [?cy] else [])"
    by blast
  from j2 e have body: "while_body (l_ult - \<bar>flm\<bar>) l_ult uc_mult s = Inr s'"
    by (simp add: while_body_def Let_def pt_A_def pt_B_def)
  have cy: "?cy = spec_cycle flm l_ult uc_mult (Full, pt_A s, pt_B s)"
    by (simp add: spec_cycle_def abs_minus_commute add.commute)
  have "(?r > 0) = (pt_A s \<noteq> pt_B s)" by auto
  with em cy have em': "emitted s' = emitted s @
      (if pt_A s \<noteq> pt_B s then [spec_cycle flm l_ult uc_mult (Full, pt_A s, pt_B s)] else [])"
    by simp
  from j2 have n1: "nat (?j - 2 + 1) = Suc (nat (?j - 2))" by simp
  from j2 jn have lt: "nat (?j - 2) < length ?a" by simp
  have "stack s' = take (Suc (nat (?j - 2))) (?a[nat (?j - 2) := ?a ! nat ?j])"
    using a' j' n1 by (simp add: stack_def)
  also have "\<dots> = take (nat (?j - 2)) ?a @ [?a ! nat ?j]"
    using lt by (rule take_Suc_update)
  also have "take (nat (?j - 2)) ?a = take (nat (?j - 2)) (stack s)"
    using j2 by (simp add: stack_def min_def)
  finally have "stack s' = take (nat (?j - 2)) (stack s) @ [pt_C s]"
    by (simp add: pt_C_def)
  moreover from g' have "ghost s' = ghost s @ [(Full, pt_A s, pt_B s)]" by simp
  ultimately show ?thesis using body em' by blast
qed

lemma while_body_partial:
  assumes j2: "idx_j s = 2" and jn: "idx_j s < int (length (tmp_a s))"
    and room: "idx_po s < length (array_out s)"
  shows "\<exists>s'. while_body (l_ult - \<bar>flm\<bar>) l_ult uc_mult s = Inr s' \<and>
           stack s' = [pt_B s, pt_C s] \<and>
           ghost s' = ghost s @ [(Partial, pt_A s, pt_B s)] \<and>
           emitted s' = emitted s @
             (if pt_A s \<noteq> pt_B s
              then [spec_cycle flm l_ult uc_mult (Partial, pt_A s, pt_B s)] else [])"
proof -
  let ?a = "tmp_a s"
  let ?a2 = "(?a[0 := ?a ! 1])[1 := (?a[0 := ?a ! 1]) ! 2]"
  let ?s1 = "s\<lparr>tmp_a := ?a2, idx_j := 1\<rparr>"
  from j2 have A: "pt_A s = ?a ! 0" and B: "pt_B s = ?a ! 1" and C: "pt_C s = ?a ! 2"
    by (simp_all add: pt_A_def pt_B_def pt_C_def)
  let ?r = "\<bar>?a ! 1 - ?a ! 0\<bar>" and ?m = "(?a ! 0 + ?a ! 1) / 2"
  let ?cy = "\<lparr>load_range = ?r, range_mean = ?m,
                goodman_range = fdiv (?r * (l_ult - \<bar>flm\<bar>)) (l_ult - \<bar>?m\<bar>),
                cycle_count = uc_mult,
                goodman_zero_mean_range = fdiv (?r * l_ult) (l_ult - \<bar>?m\<bar>)\<rparr>"
  from room have "idx_po ?s1 < length (array_out ?s1)" by simp
  from emit_result [OF this, of Partial "?a ! 0" "?a ! 1" ?r ?m
      "fdiv (?r * (l_ult - \<bar>flm\<bar>)) (l_ult - \<bar>?m\<bar>)" uc_mult
      "fdiv (?r * l_ult) (l_ult - \<bar>?m\<bar>)"]
  obtain s' where e: "emit Partial (?a ! 0, ?a ! 1) ?r ?m
        (fdiv (?r * (l_ult - \<bar>flm\<bar>)) (l_ult - \<bar>?m\<bar>)) uc_mult
        (fdiv (?r * l_ult) (l_ult - \<bar>?m\<bar>)) ?s1 = Inr s'"
    and a': "tmp_a s' = tmp_a ?s1" and j': "idx_j s' = idx_j ?s1"
    and g': "ghost s' = ghost ?s1 @ [(Partial, ?a ! 0, ?a ! 1)]"
    and em: "emitted s' = emitted ?s1 @ (if ?r > 0 then [?cy] else [])"
    by blast
  from j2 e have body: "while_body (l_ult - \<bar>flm\<bar>) l_ult uc_mult s = Inr s'"
    by (simp add: while_body_def Let_def)
  have cy: "?cy = spec_cycle flm l_ult uc_mult (Partial, pt_A s, pt_B s)"
    by (simp add: spec_cycle_def abs_minus_commute A B)
  have "(?r > 0) = (pt_A s \<noteq> pt_B s)" using A B by auto
  with em cy have em': "emitted s' = emitted s @
      (if pt_A s \<noteq> pt_B s then [spec_cycle flm l_ult uc_mult (Partial, pt_A s, pt_B s)] else [])"
    by simp
  from j2 jn have l3: "3 \<le> length ?a" by simp
  then have "2 \<le> length ?a2" by simp
  then have "take 2 ?a2 = [?a2 ! 0, ?a2 ! 1]" by (rule take_two)
  also have "\<dots> = [?a ! 1, ?a ! 2]"
  proof -
    from l3 have "?a \<noteq> []" by auto
    with l3 show ?thesis by (simp add: nth_list_update)
  qed
  finally have "stack s' = [pt_B s, pt_C s]"
    using a' j' B C by (simp add: stack_def)
  moreover from g' A B have "ghost s' = ghost s @ [(Partial, pt_A s, pt_B s)]" by simp
  ultimately show ?thesis using body em' by blast
qed

lemma stack_length:
  "- 1 \<le> idx_j s \<Longrightarrow> idx_j s < int (length (tmp_a s)) \<Longrightarrow> length (stack s) = nat (idx_j s + 1)"
  by (simp add: stack_def)

lemma stack_nth:
  "int i \<le> idx_j s \<Longrightarrow> stack s ! i = tmp_a s ! i"
  by (simp add: stack_def)

lemma stack_points:
  assumes j2: "2 \<le> idx_j s" and jn: "idx_j s < int (length (tmp_a s))"
  shows "pt_A s = stack s ! (length (stack s) - 3)"
    and "pt_B s = stack s ! (length (stack s) - 2)"
    and "pt_C s = stack s ! (length (stack s) - 1)"
proof -
  from j2 jn have len: "length (stack s) = nat (idx_j s + 1)" by (simp add: stack_length)
  from j2 have a: "nat (idx_j s + 1) - 3 = nat (idx_j s - 2)"
    and b: "nat (idx_j s + 1) - 2 = nat (idx_j s - 1)"
    and c: "nat (idx_j s + 1) - 1 = nat (idx_j s)"
    by simp_all
  from j2 show "pt_A s = stack s ! (length (stack s) - 3)"
    unfolding len a by (simp add: pt_A_def stack_nth)
  from j2 show "pt_B s = stack s ! (length (stack s) - 2)"
    unfolding len b by (simp add: pt_B_def stack_nth)
  from j2 show "pt_C s = stack s ! (length (stack s) - 1)"
    unfolding len c by (simp add: pt_C_def stack_nth)
qed

lemma closes_stack:
  assumes j1: "- 1 \<le> idx_j s" and jn: "idx_j s < int (length (tmp_a s))"
  shows "closes s \<longleftrightarrow>
     3 \<le> length (stack s) \<and>
     \<bar>stack s ! (length (stack s) - 3) - stack s ! (length (stack s) - 2)\<bar>
       \<le> \<bar>stack s ! (length (stack s) - 2) - stack s ! (length (stack s) - 1)\<bar>"
proof (cases "2 \<le> idx_j s")
  case True
  with jn have "3 \<le> length (stack s)" by (simp add: stack_length)
  with True jn show ?thesis
    by (simp add: closes_points stack_points)
next
  case False
  with j1 jn have "\<not> 3 \<le> length (stack s)" by (simp add: stack_length)
  with False show ?thesis by (simp add: closes_def)
qed

lemma while_body_sim:
  assumes st: "stack_ok X n s" and ok: "out_ok flm l_ult uc_mult X n s"
    and cl: "closes s"
    and cnt: "int (units (ghost s)) + idx_j s + 1 = int k" and kn: "k \<le> n"
  shows "\<exists>s'. while_body (l_ult - \<bar>flm\<bar>) l_ult uc_mult s = Inr s' \<and>
           stack_ok X n s' \<and> out_ok flm l_ult uc_mult X n s' \<and>
           int (units (ghost s')) + idx_j s' + 1 = int k \<and>
           0 \<le> idx_j s' \<and> idx_j s' < idx_j s \<and>
           stack s' =
             (if length (stack s) = 3 then [stack s ! 1, stack s ! 2]
              else take (length (stack s) - 3) (stack s) @ [stack s ! (length (stack s) - 1)]) \<and>
           ghost s' = ghost s @
             [(if length (stack s) = 3 then Partial else Full,
               stack s ! (length (stack s) - 3), stack s ! (length (stack s) - 2))]"
proof -
  from cl have j2: "2 \<le> idx_j s" by (simp add: closes_def)
  from st have len: "length (tmp_a s) = n" and jn: "idx_j s < int (length (tmp_a s))"
    by (simp_all add: stack_ok_def)
  from while_body_ok [OF st ok j2 cnt kn]
  obtain s' where b: "while_body (l_ult - \<bar>flm\<bar>) l_ult uc_mult s = Inr s'"
    and inv: "stack_ok X n s'" "out_ok flm l_ult uc_mult X n s'"
      "int (units (ghost s')) + idx_j s' + 1 = int k" "0 \<le> idx_j s'" "idx_j s' < idx_j s"
    by blast
  from ok have lo: "length (array_out s) = n - 1" and po: "idx_po s = length (kept (ghost s))"
    by (simp_all add: out_ok_def)
  have "length (kept (ghost s)) \<le> units (ghost s)" by (rule length_kept_le_units)
  with po lo cnt kn j2 have room: "idx_po s < length (array_out s)" by linarith
  from j2 jn have sl: "length (stack s) = nat (idx_j s + 1)" by (simp add: stack_length)
  note pts = stack_points [OF j2 jn]
  show ?thesis
  proof (cases "idx_j s = 2")
    case True
    with sl have l3: "length (stack s) = 3" by simp
    from while_body_partial [OF True jn room, of l_ult flm uc_mult] b
    have "stack s' = [pt_B s, pt_C s]" and "ghost s' = ghost s @ [(Partial, pt_A s, pt_B s)]"
      by auto
    with pts l3 have "stack s' = [stack s ! 1, stack s ! 2]"
      and "ghost s' = ghost s @ [(Partial, stack s ! (length (stack s) - 3),
              stack s ! (length (stack s) - 2))]"
      by simp_all
    with b inv l3 show ?thesis by simp
  next
    case False
    with j2 have j3: "2 < idx_j s" by simp
    with sl have l3: "length (stack s) \<noteq> 3" by simp
    from j2 sl have tk: "nat (idx_j s - 2) = length (stack s) - 3" by simp
    from while_body_full [OF j3 jn room, of l_ult flm uc_mult] b
    have "stack s' = take (nat (idx_j s - 2)) (stack s) @ [pt_C s]"
      and "ghost s' = ghost s @ [(Full, pt_A s, pt_B s)]"
      by auto
    with pts tk have "stack s' = take (length (stack s) - 3) (stack s) @
          [stack s ! (length (stack s) - 1)]"
      and "ghost s' = ghost s @ [(Full, stack s ! (length (stack s) - 3),
              stack s ! (length (stack s) - 2))]"
      by simp_all
    with b inv l3 show ?thesis by simp
  qed
qed

lemma while_loop_sim:
  assumes n2: "2 \<le> n" and kn: "k \<le> n"
  shows "stack_ok X n s \<Longrightarrow> out_ok flm l_ult uc_mult X n s \<Longrightarrow> 0 \<le> idx_j s \<Longrightarrow>
         int (units (ghost s)) + idx_j s + 1 = int k \<Longrightarrow>
         \<exists>s'. while_loop (l_ult - \<bar>flm\<bar>) l_ult uc_mult s = Inr s' \<and>
           stack_ok X n s' \<and> out_ok flm l_ult uc_mult X n s' \<and>
           int (units (ghost s')) + idx_j s' + 1 = int k \<and> 0 \<le> idx_j s' \<and>
           stack s' = snd (reduce_stack (stack s)) \<and>
           ghost s' = ghost s @ fst (reduce_stack (stack s))"
proof (induction "nat (idx_j s)" arbitrary: s rule: less_induct)
  case less
  from less.prems(1) n2 less.prems(3) have c: "while_cond s = Inr (closes s)"
    by (rule while_cond_ok)
  from less.prems(1) have jn: "idx_j s < int (length (tmp_a s))" and j1: "- 1 \<le> idx_j s"
    by (simp_all add: stack_ok_def)
  note cs = closes_stack [OF j1 jn]
  show ?case
  proof (cases "closes s")
    case False
    with c have "while_loop (l_ult - \<bar>flm\<bar>) l_ult uc_mult s = Inr s"
      by (simp add: while_loop.simps [of _ _ _ s])
    moreover have "reduce_stack (stack s) = ([], stack s)"
    proof -
      from False cs have nc: "\<not> (3 \<le> length (stack s) \<and>
          \<bar>stack s ! (length (stack s) - 3) - stack s ! (length (stack s) - 2)\<bar>
            \<le> \<bar>stack s ! (length (stack s) - 2) - stack s ! (length (stack s) - 1)\<bar>)"
        by simp
      show ?thesis
        by (subst reduce_stack.simps) (simp only: nc if_False)
    qed
    ultimately show ?thesis using less.prems by simp
  next
    case True
    let ?st = "stack s"
    let ?st1 = "if length ?st = 3 then [?st ! 1, ?st ! 2]
                else take (length ?st - 3) ?st @ [?st ! (length ?st - 1)]"
    let ?iv = "(if length ?st = 3 then Partial else Full,
                ?st ! (length ?st - 3), ?st ! (length ?st - 2))"
    from while_body_sim [OF less.prems(1) less.prems(2) True less.prems(4) kn]
    obtain s1 where b: "while_body (l_ult - \<bar>flm\<bar>) l_ult uc_mult s = Inr s1"
      and st1: "stack_ok X n s1" and ok1: "out_ok flm l_ult uc_mult X n s1"
      and cnt1: "int (units (ghost s1)) + idx_j s1 + 1 = int k"
      and j1': "0 \<le> idx_j s1" and dec: "idx_j s1 < idx_j s"
      and stk1: "stack s1 = ?st1" and g1: "ghost s1 = ghost s @ [?iv]"
      by blast
    from dec j1' have "nat (idx_j s1) < nat (idx_j s)" by simp
    from less.hyps [OF this st1 ok1 j1' cnt1]
    obtain s' where w: "while_loop (l_ult - \<bar>flm\<bar>) l_ult uc_mult s1 = Inr s'"
      and post: "stack_ok X n s'" "out_ok flm l_ult uc_mult X n s'"
        "int (units (ghost s')) + idx_j s' + 1 = int k" "0 \<le> idx_j s'"
      and stk': "stack s' = snd (reduce_stack (stack s1))"
      and g': "ghost s' = ghost s1 @ fst (reduce_stack (stack s1))"
      by blast
    from c True b w have wl: "while_loop (l_ult - \<bar>flm\<bar>) l_ult uc_mult s = Inr s'"
      by (simp add: while_loop.simps [of _ _ _ s])
    from True cs have c3: "3 \<le> length ?st \<and>
        \<bar>?st ! (length ?st - 3) - ?st ! (length ?st - 2)\<bar>
          \<le> \<bar>?st ! (length ?st - 2) - ?st ! (length ?st - 1)\<bar>"
      by simp
    have unf: "reduce_stack ?st =
        (if length ?st = 3 then
           ((Partial, ?st ! 0, ?st ! 1) # fst (reduce_stack [?st ! 1, ?st ! 2]),
            snd (reduce_stack [?st ! 1, ?st ! 2]))
         else
           ((Full, ?st ! (length ?st - 3), ?st ! (length ?st - 2)) #
              fst (reduce_stack (take (length ?st - 3) ?st @ [?st ! (length ?st - 1)])),
            snd (reduce_stack (take (length ?st - 3) ?st @ [?st ! (length ?st - 1)]))))"
      by (subst reduce_stack.simps) (simp only: c3 if_True Let_def simp_thms)
    have red: "reduce_stack ?st =
        (?iv # fst (reduce_stack ?st1), snd (reduce_stack ?st1))"
    proof (cases "length ?st = 3")
      case True
      with unf show ?thesis by simp
    next
      case False
      with unf show ?thesis by simp
    qed
    from stk' stk1 red have "stack s' = snd (reduce_stack ?st)" by simp
    moreover from g' g1 stk1 red have "ghost s' = ghost s @ fst (reduce_stack ?st)" by simp
    ultimately show ?thesis using wl post by simp
  qed
qed

lemma push_sim:
  assumes st: "stack_ok X n s" and ok: "out_ok flm l_ult uc_mult X n s"
    and cnt: "int (units (ghost s)) + idx_j s + 1 = int k" and kn: "k < n" and x: "x \<in> X"
  shows "\<exists>s'. push x s = Inr s' \<and> stack_ok X n s' \<and> out_ok flm l_ult uc_mult X n s' \<and>
           int (units (ghost s')) + idx_j s' + 1 = int (Suc k) \<and> 0 \<le> idx_j s' \<and>
           stack s' = stack s @ [x] \<and> ghost s' = ghost s"
proof -
  from push_ok [OF st ok cnt kn x]
  obtain s' where p: "push x s = Inr s'"
    and inv: "stack_ok X n s'" "out_ok flm l_ult uc_mult X n s'"
      "int (units (ghost s')) + idx_j s' + 1 = int (Suc k)" "0 \<le> idx_j s'"
    by blast
  from st have len: "length (tmp_a s) = n" and j1: "- 1 \<le> idx_j s"
    by (simp_all add: stack_ok_def)
  from cnt kn have jn: "idx_j s + 1 < int n" by linarith
  let ?s' = "s\<lparr>tmp_a := (tmp_a s)[nat (idx_j s + 1) := x], idx_j := idx_j s + 1\<rparr>"
  from len j1 jn have "push x s = Inr ?s'"
    by (simp add: push_def setitem_def ebind_def Let_def)
  with p have eq: "s' = ?s'" by simp
  from j1 have n1: "nat (idx_j s + 1 + 1) = Suc (nat (idx_j s + 1))" by simp
  from len jn j1 have lt: "nat (idx_j s + 1) < length (tmp_a s)" by simp
  have "stack ?s' = take (Suc (nat (idx_j s + 1))) ((tmp_a s)[nat (idx_j s + 1) := x])"
    using n1 by (simp add: stack_def)
  also have "\<dots> = take (nat (idx_j s + 1)) (tmp_a s) @ [x]"
    using lt by (rule take_Suc_update)
  finally have "stack ?s' = stack s @ [x]" by (simp add: stack_def)
  with eq p inv show ?thesis by simp
qed

lemma main_loop_sim:
  assumes n2: "2 \<le> n"
  shows "stack_ok X n s \<Longrightarrow> out_ok flm l_ult uc_mult X n s \<Longrightarrow>
         int (units (ghost s)) + idx_j s + 1 = int k \<Longrightarrow> k + length ys \<le> n \<Longrightarrow>
         set ys \<subseteq> X \<Longrightarrow>
         \<exists>s'. main_loop (l_ult - \<bar>flm\<bar>) l_ult uc_mult ys s = Inr s' \<and>
           stack_ok X n s' \<and> out_ok flm l_ult uc_mult X n s' \<and>
           int (units (ghost s')) + idx_j s' + 1 = int (k + length ys) \<and>
           stack s' = snd (feed (stack s) ys) \<and>
           ghost s' = ghost s @ fst (feed (stack s) ys)"
proof (induction ys arbitrary: s k)
  case Nil
  then show ?case by simp
next
  case (Cons y ys)
  from Cons.prems(4) have kn: "k < n" and kn': "Suc k \<le> n" by simp_all
  from Cons.prems(5) have y: "y \<in> X" by simp
  from push_sim [OF Cons.prems(1) Cons.prems(2) Cons.prems(3) kn y]
  obtain s1 where p: "push y s = Inr s1" and st1: "stack_ok X n s1"
    and ok1: "out_ok flm l_ult uc_mult X n s1"
    and cnt1: "int (units (ghost s1)) + idx_j s1 + 1 = int (Suc k)" and j1: "0 \<le> idx_j s1"
    and stk1: "stack s1 = stack s @ [y]" and g1: "ghost s1 = ghost s"
    by blast
  from while_loop_sim [OF n2 kn' st1 ok1 j1 cnt1]
  obtain s2 where w: "while_loop (l_ult - \<bar>flm\<bar>) l_ult uc_mult s1 = Inr s2"
    and st2: "stack_ok X n s2" and ok2: "out_ok flm l_ult uc_mult X n s2"
    and cnt2: "int (units (ghost s2)) + idx_j s2 + 1 = int (Suc k)"
    and stk2: "stack s2 = snd (reduce_stack (stack s1))"
    and g2: "ghost s2 = ghost s1 @ fst (reduce_stack (stack s1))"
    by blast
  from Cons.prems(4) have le: "Suc k + length ys \<le> n" by simp
  from Cons.prems(5) have sub: "set ys \<subseteq> X" by simp
  from Cons.IH [OF st2 ok2 cnt2 le sub]
  obtain s' where m: "main_loop (l_ult - \<bar>flm\<bar>) l_ult uc_mult ys s2 = Inr s'"
    and post: "stack_ok X n s'" "out_ok flm l_ult uc_mult X n s'"
      "int (units (ghost s')) + idx_j s' + 1 = int (Suc k + length ys)"
    and stk': "stack s' = snd (feed (stack s2) ys)"
    and g': "ghost s' = ghost s2 @ fst (feed (stack s2) ys)"
    by blast
  from p w m have "main_loop (l_ult - \<bar>flm\<bar>) l_ult uc_mult (y # ys) s = Inr s'"
    by simp
  moreover from stk' stk2 stk1 have "stack s' = snd (feed (stack s) (y # ys))"
    by (simp add: Let_def)
  moreover from g' g2 g1 stk2 stk1 have "ghost s' = ghost s @ fst (feed (stack s) (y # ys))"
    by (simp add: Let_def)
  ultimately show ?case using post by simp
qed

lemma residual_loop_sim:
  "stack_ok X n s \<Longrightarrow> out_ok flm l_ult uc_mult X n s \<Longrightarrow>
   \<forall>i \<in> set is. int i + 1 \<le> idx_j s \<Longrightarrow> units (ghost s) + length is + 1 \<le> n \<Longrightarrow>
   \<exists>s'. residual_loop (l_ult - \<bar>flm\<bar>) l_ult uc_mult is s = Inr s' \<and>
     out_ok flm l_ult uc_mult X n s' \<and>
     ghost s' = ghost s @ map (\<lambda>i. (Residual, tmp_a s ! i, tmp_a s ! (i + 1))) is"
proof (induction "is" arbitrary: s)
  case Nil
  then show ?case by simp
next
  case (Cons i "is")
  let ?a = "tmp_a s"
  from Cons.prems(1) have inX: "\<And>i. int i \<le> idx_j s \<Longrightarrow> tmp_a s ! i \<in> X"
    by (simp add: stack_ok_def)
  from Cons.prems(3) have i1: "int i + 1 \<le> idx_j s" by simp
  have p: "?a ! i \<in> X" and q: "?a ! (i + 1) \<in> X"
    using inX [of i] inX [of "i + 1"] i1 by simp_all
  from Cons.prems(4) have room: "units (ghost s) + 2 \<le> n" by simp
  have cy: "spec_cycle flm l_ult uc_mult (Residual, ?a ! i, ?a ! (i + 1)) =
        \<lparr>load_range = \<bar>?a ! i - ?a ! (i + 1)\<bar>, range_mean = (?a ! i + ?a ! (i + 1)) / 2,
         goodman_range = fdiv (\<bar>?a ! i - ?a ! (i + 1)\<bar> * (l_ult - \<bar>flm\<bar>))
                            (l_ult - \<bar>(?a ! i + ?a ! (i + 1)) / 2\<bar>),
         cycle_count = uc_mult,
         goodman_zero_mean_range = fdiv (\<bar>?a ! i - ?a ! (i + 1)\<bar> * l_ult)
                            (l_ult - \<bar>(?a ! i + ?a ! (i + 1)) / 2\<bar>)\<rparr>"
    by (simp add: spec_cycle_def)
  from emit_ok [OF Cons.prems(2) room p q refl cy]
  obtain s1 where e: "emit Residual (?a ! i, ?a ! (i + 1)) \<bar>?a ! i - ?a ! (i + 1)\<bar>
          ((?a ! i + ?a ! (i + 1)) / 2)
          (fdiv (\<bar>?a ! i - ?a ! (i + 1)\<bar> * (l_ult - \<bar>flm\<bar>))
                (l_ult - \<bar>(?a ! i + ?a ! (i + 1)) / 2\<bar>))
          uc_mult
          (fdiv (\<bar>?a ! i - ?a ! (i + 1)\<bar> * l_ult) (l_ult - \<bar>(?a ! i + ?a ! (i + 1)) / 2\<bar>))
          s = Inr s1"
    and ok1: "out_ok flm l_ult uc_mult X n s1"
    and g1: "ghost s1 = ghost s @ [(Residual, ?a ! i, ?a ! (i + 1))]"
    and a1: "tmp_a s1 = tmp_a s" and j1: "idx_j s1 = idx_j s"
    by blast
  from Cons.prems(1) a1 j1 have st1: "stack_ok X n s1" by (simp add: stack_ok_def)
  from Cons.prems(3) j1 have all1: "\<forall>i \<in> set is. int i + 1 \<le> idx_j s1" by simp
  from Cons.prems(4) g1 have room1: "units (ghost s1) + length is + 1 \<le> n" by simp
  from Cons.IH [OF st1 ok1 all1 room1]
  obtain s' where r: "residual_loop (l_ult - \<bar>flm\<bar>) l_ult uc_mult is s1 = Inr s'"
    and ok': "out_ok flm l_ult uc_mult X n s'"
    and g': "ghost s' = ghost s1 @ map (\<lambda>i. (Residual, tmp_a s1 ! i, tmp_a s1 ! (i + 1))) is"
    by blast
  from e r have "residual_loop (l_ult - \<bar>flm\<bar>) l_ult uc_mult (i # is) s = Inr s'"
    by (simp add: Let_def)
  with ok' g' g1 a1 show ?case by simp
qed

lemma stack_init: "stack (init n) = []"
  by (simp add: stack_def init_def)

lemma ghost_init: "ghost (init n) = []"
  by (simp add: init_def)

lemma rainflow_run_sim:
  assumes n2: "2 \<le> length xs"
  shows "\<exists>s. rainflow_run xs flm l_ult uc_mult = Inr s \<and>
           out_ok flm l_ult uc_mult (set xs) (length xs) s \<and>
           ghost s = rainflow_intervals xs"
proof -
  let ?n = "length xs"
  from n2 have ne: "xs \<noteq> []" by auto
  have le: "0 + length xs \<le> ?n" by simp
  from main_loop_sim [OF n2 init_ok(1) init_ok(2) init_ok(3) le subset_refl]
  obtain s1 where m: "main_loop (l_ult - \<bar>flm\<bar>) l_ult uc_mult xs (init ?n) = Inr s1"
    and st1: "stack_ok (set xs) ?n s1" and ok1: "out_ok flm l_ult uc_mult (set xs) ?n s1"
    and cnt1: "int (units (ghost s1)) + idx_j s1 + 1 = int (0 + ?n)"
    and stk1: "stack s1 = snd (feed (stack (init ?n)) xs)"
    and g1: "ghost s1 = ghost (init ?n) @ fst (feed (stack (init ?n)) xs)"
    by blast
  from main_loop_ok [where flm = flm and l_ult = l_ult and uc_mult = uc_mult,
      OF n2 init_ok(1) init_ok(2) init_ok(3) le subset_refl ne] m
  have j1: "0 \<le> idx_j s1" by auto
  from st1 have jn: "idx_j s1 < int (length (tmp_a s1))" by (simp add: stack_ok_def)
  from j1 jn have sl: "length (stack s1) = nat (idx_j s1 + 1)" by (simp add: stack_length)
  have all1: "\<forall>i \<in> set [0..<nat (idx_j s1)]. int i + 1 \<le> idx_j s1" by auto
  from cnt1 j1 have room1: "units (ghost s1) + length [0..<nat (idx_j s1)] + 1 \<le> ?n"
    by simp
  from residual_loop_sim [OF st1 ok1 all1 room1]
  obtain s where r: "residual_loop (l_ult - \<bar>flm\<bar>) l_ult uc_mult [0..<nat (idx_j s1)] s1 = Inr s"
    and ok: "out_ok flm l_ult uc_mult (set xs) ?n s"
    and g: "ghost s = ghost s1 @
        map (\<lambda>i. (Residual, tmp_a s1 ! i, tmp_a s1 ! (i + 1))) [0..<nat (idx_j s1)]"
    by blast
  have "map (\<lambda>i. (Residual, tmp_a s1 ! i, tmp_a s1 ! (i + 1))) [0..<nat (idx_j s1)] =
      map (\<lambda>i. (Residual, stack s1 ! i, stack s1 ! (i + 1))) [0..<nat (idx_j s1)]"
    by (rule map_cong) (auto simp: stack_nth)
  also have "\<dots> = residuals (stack s1)"
  proof -
    from j1 have "nat (idx_j s1 + 1) - 1 = nat (idx_j s1)" by simp
    with sl show ?thesis by (simp add: residuals_def)
  qed
  finally have "ghost s = ghost s1 @ residuals (stack s1)" using g by simp
  with g1 stk1 have "ghost s = rainflow_intervals xs"
    by (simp add: rainflow_intervals_def Let_def stack_init ghost_init)
  moreover from ne m r have "rainflow_run xs flm l_ult uc_mult = Inr s"
    by (simp add: rainflow_run_def ebind_def Let_def)
  ultimately show ?thesis using ok by simp
qed

text \<open>The equations that evaluate a run on a concrete input.\<close>

lemmas rf_eval = rainflow_def rainflow_run_def after_pushes_def init_def ebind_def
  while_loop.simps while_cond_def while_body_def emit_def push_def getitem_def setitem_def
  Let_def emitted_def stack_def fdiv_def zero_column_def upt_rec

section \<open>The collapse rule of the while loop\<close>

text \<open>
  C1, as the code has it. Take a state with a non-empty stack inside a temporary array
  of at least two cells and room for one more column; \<open>A\<close>, \<open>B\<close>, \<open>C\<close> are the
  three most recent points of a stack that has them.
  \<^item> If \<open>|A - B| \<le> |B - C|\<close> and the stack holds more than three points, the body
    removes \<open>A\<close> and \<open>B\<close> (the stack becomes what was below them, then \<open>C\<close>),
    appends the cycle of \<open>(A, B)\<close> with count 1 when \<open>A \<noteq> B\<close> and nothing when
    \<open>A = B\<close>, and the loop tests the new state.
  \<^item> If \<open>|A - B| \<le> |B - C|\<close> and the stack holds exactly three points, the body removes
    \<open>A\<close> only (the stack becomes \<open>B, C\<close>), appends the cycle of \<open>(A, B)\<close> with the
    partial weight when \<open>A \<noteq> B\<close>, and the loop tests the new state.
  \<^item> Otherwise (fewer than three points, or \<open>|A - B| > |B - C|\<close>) the loop ends with
    the state unchanged.
  \<^item> Each round of the first for loop pushes one point, runs this loop, and only then
    goes on to the next point.
\<close>

theorem collapse_rule:
  assumes j0: "0 \<le> idx_j s" and jn: "idx_j s < int (length (tmp_a s))"
    and n2: "2 \<le> length (tmp_a s)"
    and room: "idx_po s < length (array_out s)"
  shows
    "(\<bar>pt_A s - pt_B s\<bar> \<le> \<bar>pt_B s - pt_C s\<bar> \<and> 2 < idx_j s \<longrightarrow>
        (\<exists>s'. while_body (l_ult - \<bar>flm\<bar>) l_ult uc_mult s = Inr s' \<and>
              while_loop (l_ult - \<bar>flm\<bar>) l_ult uc_mult s =
                while_loop (l_ult - \<bar>flm\<bar>) l_ult uc_mult s' \<and>
              stack s' = take (nat (idx_j s - 2)) (stack s) @ [pt_C s] \<and>
              emitted s' = emitted s @
                (if pt_A s \<noteq> pt_B s
                 then [spec_cycle flm l_ult uc_mult (Full, pt_A s, pt_B s)] else []))) \<and>
     (\<bar>pt_A s - pt_B s\<bar> \<le> \<bar>pt_B s - pt_C s\<bar> \<and> idx_j s = 2 \<longrightarrow>
        (\<exists>s'. while_body (l_ult - \<bar>flm\<bar>) l_ult uc_mult s = Inr s' \<and>
              while_loop (l_ult - \<bar>flm\<bar>) l_ult uc_mult s =
                while_loop (l_ult - \<bar>flm\<bar>) l_ult uc_mult s' \<and>
              stack s' = [pt_B s, pt_C s] \<and>
              emitted s' = emitted s @
                (if pt_A s \<noteq> pt_B s
                 then [spec_cycle flm l_ult uc_mult (Partial, pt_A s, pt_B s)] else []))) \<and>
     (idx_j s < 2 \<or> \<not> \<bar>pt_A s - pt_B s\<bar> \<le> \<bar>pt_B s - pt_C s\<bar> \<longrightarrow>
        while_loop (l_ult - \<bar>flm\<bar>) l_ult uc_mult s = Inr s) \<and>
     main_loop (l_ult - \<bar>flm\<bar>) l_ult uc_mult (x # xs) s =
       ebind (push x s) (\<lambda>s1.
         ebind (while_loop (l_ult - \<bar>flm\<bar>) l_ult uc_mult s1)
           (main_loop (l_ult - \<bar>flm\<bar>) l_ult uc_mult xs))"
proof -
  from j0 jn have st: "stack_ok UNIV (length (tmp_a s)) s"
    by (simp add: stack_ok_def)
  from st n2 j0 have c: "while_cond s = Inr (closes s)" by (rule while_cond_ok)
  have unfold: "closes s \<Longrightarrow> while_body (l_ult - \<bar>flm\<bar>) l_ult uc_mult s = Inr s' \<Longrightarrow>
      while_loop (l_ult - \<bar>flm\<bar>) l_ult uc_mult s = while_loop (l_ult - \<bar>flm\<bar>) l_ult uc_mult s'"
    for s'
    using c by (simp add: while_loop.simps [of _ _ _ s])
  show ?thesis
  proof (intro conjI impI)
    assume h: "\<bar>pt_A s - pt_B s\<bar> \<le> \<bar>pt_B s - pt_C s\<bar> \<and> 2 < idx_j s"
    then have cl: "closes s" by (simp add: closes_points)
    from h have "2 < idx_j s" by simp
    from while_body_full [OF this jn room]
    obtain s' where b: "while_body (l_ult - \<bar>flm\<bar>) l_ult uc_mult s = Inr s'"
      and r: "stack s' = take (nat (idx_j s - 2)) (stack s) @ [pt_C s]"
        "emitted s' = emitted s @
          (if pt_A s \<noteq> pt_B s
           then [spec_cycle flm l_ult uc_mult (Full, pt_A s, pt_B s)] else [])"
      by blast
    from unfold [OF cl b] b r
    show "\<exists>s'. while_body (l_ult - \<bar>flm\<bar>) l_ult uc_mult s = Inr s' \<and>
              while_loop (l_ult - \<bar>flm\<bar>) l_ult uc_mult s =
                while_loop (l_ult - \<bar>flm\<bar>) l_ult uc_mult s' \<and>
              stack s' = take (nat (idx_j s - 2)) (stack s) @ [pt_C s] \<and>
              emitted s' = emitted s @
                (if pt_A s \<noteq> pt_B s
                 then [spec_cycle flm l_ult uc_mult (Full, pt_A s, pt_B s)] else [])"
      by blast
  next
    assume h: "\<bar>pt_A s - pt_B s\<bar> \<le> \<bar>pt_B s - pt_C s\<bar> \<and> idx_j s = 2"
    then have cl: "closes s" by (simp add: closes_points)
    from h have "idx_j s = 2" by simp
    from while_body_partial [OF this jn room]
    obtain s' where b: "while_body (l_ult - \<bar>flm\<bar>) l_ult uc_mult s = Inr s'"
      and r: "stack s' = [pt_B s, pt_C s]"
        "emitted s' = emitted s @
          (if pt_A s \<noteq> pt_B s
           then [spec_cycle flm l_ult uc_mult (Partial, pt_A s, pt_B s)] else [])"
      by blast
    from unfold [OF cl b] b r
    show "\<exists>s'. while_body (l_ult - \<bar>flm\<bar>) l_ult uc_mult s = Inr s' \<and>
              while_loop (l_ult - \<bar>flm\<bar>) l_ult uc_mult s =
                while_loop (l_ult - \<bar>flm\<bar>) l_ult uc_mult s' \<and>
              stack s' = [pt_B s, pt_C s] \<and>
              emitted s' = emitted s @
                (if pt_A s \<noteq> pt_B s
                 then [spec_cycle flm l_ult uc_mult (Partial, pt_A s, pt_B s)] else [])"
      by blast
  next
    assume "idx_j s < 2 \<or> \<not> \<bar>pt_A s - pt_B s\<bar> \<le> \<bar>pt_B s - pt_C s\<bar>"
    then have "\<not> closes s" by (auto simp: closes_points)
    with c show "while_loop (l_ult - \<bar>flm\<bar>) l_ult uc_mult s = Inr s"
      by (simp add: while_loop.simps [of _ _ _ s])
  next
    show "main_loop (l_ult - \<bar>flm\<bar>) l_ult uc_mult (x # xs) s =
       ebind (push x s) (\<lambda>s1.
         ebind (while_loop (l_ult - \<bar>flm\<bar>) l_ult uc_mult s1)
           (main_loop (l_ult - \<bar>flm\<bar>) l_ult uc_mult xs))"
      by (simp add: ebind_def)
  qed
qed

text \<open>
  An instance of the first case: on the stack \<open>-2, 4, 2, 5\<close> the interval \<open>(4, 2)\<close>
  closes as a full cycle and the stack becomes \<open>-2, 5\<close>.
\<close>

theorem collapse_rule_witness:
  "\<exists>s'. while_body (10 - \<bar>0\<bar>) 10 (1 / 2)
          \<lparr>tmp_a = [- 2, 4, 2, 5, 0], idx_j = 3, idx_po = 1,
           array_out = replicate 4 zero_column, ghost = []\<rparr> = Inr s' \<and>
        stack s' = [- 2, 5] \<and>
        emitted s' = [zero_column, spec_cycle 0 10 (1 / 2) (Full, 4, 2)]"
  using collapse_rule [of "\<lparr>tmp_a = [- 2, 4, 2, 5, 0], idx_j = 3, idx_po = 1,
           array_out = replicate 4 zero_column, ghost = []\<rparr>" 10 0 "1 / 2"]
  by (auto simp: pt_A_def pt_B_def pt_C_def stack_def emitted_def numeral_eq_Suc)

text \<open>
  C1 as stated fails on a stack of exactly three points: after the points \<open>0, 1, 3\<close>
  (where \<open>|0 - 1| \<le> |1 - 3|\<close>) the stack is \<open>1, 3\<close>, so \<open>B = 1\<close> was kept and the
  stack shrank by one, and the cycle recorded has count 1/2, not 1.
\<close>

theorem collapse_of_three_points:
  "\<exists>s. after_pushes [0, 1, 3] 0 (10 ^ 16) (1 / 2) 3 = Inr s \<and>
     stack s = [1, 3] \<and> map cycle_count (emitted s) = [1 / 2]"
  by (simp add: rf_eval)

section \<open>Degenerate load margin\<close>

text \<open>
  C2, as the code has it. The claim asks for a \<open>DegenerateLoadMargin\<close> failure when an
  emitted interval has \<open>|mean| = ultimate_load\<close>. The code has no such failure: for every
  input of at least two points and every configuration the call returns its cycle list,
  and a cycle whose mean has the magnitude of the ultimate load carries a non-finite value
  (an infinity or NaN) in both Goodman fields.
\<close>

theorem rainflow_degenerate_margin:
  assumes "2 \<le> length xs"
  shows "\<exists>cs. rainflow xs flm l_ult uc_mult = Inr cs \<and>
           (\<forall>c \<in> set cs. \<bar>range_mean c\<bar> = l_ult \<longrightarrow>
              \<not> is_finite (goodman_range c) \<and> \<not> is_finite (goodman_zero_mean_range c))"
proof -
  from rainflow_ok [OF assms]
  obtain s where r: "rainflow xs flm l_ult uc_mult = Inr (emitted s)"
    and ok: "out_ok flm l_ult uc_mult (set xs) (length xs) s"
    by blast
  from ok have em: "emitted s = map (spec_cycle flm l_ult uc_mult) (kept (ghost s))"
    by (simp add: out_ok_def)
  have "\<forall>c \<in> set (emitted s). \<bar>range_mean c\<bar> = l_ult \<longrightarrow>
      \<not> is_finite (goodman_range c) \<and> \<not> is_finite (goodman_zero_mean_range c)"
  proof (intro ballI impI)
    fix c assume "c \<in> set (emitted s)" and m: "\<bar>range_mean c\<bar> = l_ult"
    with em obtain iv where c: "c = spec_cycle flm l_ult uc_mult iv" by auto
    from m have z: "l_ult - \<bar>range_mean c\<bar> = 0" by simp
    have "goodman_range c = fdiv (load_range c * (l_ult - \<bar>flm\<bar>)) (l_ult - \<bar>range_mean c\<bar>)"
      and "goodman_zero_mean_range c = fdiv (load_range c * l_ult) (l_ult - \<bar>range_mean c\<bar>)"
      unfolding c by (rule spec_cycle_goodman)+
    then show "\<not> is_finite (goodman_range c) \<and> \<not> is_finite (goodman_zero_mean_range c)"
      by (simp only: z fdiv_zero_not_finite simp_thms)
  qed
  with r show ?thesis by blast
qed

text \<open>
  An instance: the points \<open>-1, -5\<close> with ultimate load 3 give one half cycle of mean
  \<open>-3\<close>, returned with both Goodman fields non-finite.
\<close>

theorem rainflow_degenerate_margin_witness:
  "\<exists>c. rainflow [- 1, - 5] 1 3 (1 / 2) = Inr [c] \<and> \<bar>range_mean c\<bar> = 3 \<and>
     \<not> is_finite (goodman_range c) \<and> \<not> is_finite (goodman_zero_mean_range c)"
  using rainflow_degenerate_margin [of "[- 1, - 5]" 1 3 "1 / 2"]
  by (simp add: rf_eval is_finite_def)

text \<open>
  C2 as stated fails: the points \<open>1, 3\<close> with ultimate load 2 have mean 2, and the call
  returns a cycle with infinite Goodman ranges instead of an error.
\<close>

theorem rainflow_degenerate_margin_not_reported:
  "rainflow [1, 3] 0 2 (1 / 2) =
     Inr [\<lparr>load_range = 2, range_mean = 2, goodman_range = PInf, cycle_count = 1 / 2,
           goodman_zero_mean_range = PInf\<rparr>]"
  by (simp add: rf_eval)

section \<open>Inputs of fewer than two points\<close>

text \<open>
  C3 at its failing inputs. The claim says that an input of fewer than two points gives
  an empty cycle list and no error. The code raises on both such inputs: on the empty
  array when it allocates the output (\<open>ValueError\<close>), on a single point when the guard of
  the while loop reads \<^verbatim>\<open>a[j - 2]\<close> with \<open>j = 0\<close> in an array of one cell
  (\<open>IndexError\<close>).
\<close>

theorem rainflow_short_input_raises:
  "rainflow [] flm l_ult uc_mult = Inl ValueError \<and>
   rainflow [x] flm l_ult uc_mult = Inl IndexError"
  by (simp add: rf_eval)

section \<open>The reference signal\<close>

text \<open>
  C4: on the turning points \<open>3, -2, 4, 2, 5, -1, 1, 0, 3\<close> with the default
  configuration the call returns cycles whose counts add up to exactly 4, a mix of full
  and half cycles: two full cycles (ranges 2 and 1) and four half cycles (the partial one
  of range 5 and the residual ones of ranges 7, 6 and 4), one column each. Each is listed
  with its range, mean and count.
\<close>

theorem rainflow_reference_signal:
  "\<exists>cs. rainflow [3, - 2, 4, 2, 5, - 1, 1, 0, 3] 0 (10 ^ 16) (1 / 2) = Inr cs \<and>
     weights cs = 4 \<and>
     length (filter (\<lambda>c. cycle_count c = 1) cs) = 2 \<and>
     length (filter (\<lambda>c. cycle_count c = 1 / 2) cs) = 4 \<and>
     map (\<lambda>c. (load_range c, range_mean c, cycle_count c)) cs =
       [(5, 1 / 2, 1 / 2), (2, 3, 1), (1, 1 / 2, 1),
        (7, 3 / 2, 1 / 2), (6, 2, 1 / 2), (4, 1, 1 / 2)]"
  by (simp add: rf_eval weights_def)

section \<open>The sum of the count weights\<close>

text \<open>
  C5, as the code has it. A full cycle takes two points off the stack and has weight 1;
  a partial or residual interval accounts for one point and has the partial weight. So
  for every input of \<open>n \<ge> 2\<close> points and the partial weight 1/2, twice the sum of the
  emitted weights is \<open>n - 1\<close> less the discarded intervals of range zero, a discarded
  interval of the full path counted twice (\<open>units\<close>).
\<close>

theorem rainflow_weight_account:
  assumes "2 \<le> length xs"
  shows "\<exists>s. rainflow_run xs flm l_ult (1 / 2) = Inr s \<and>
           rainflow xs flm l_ult (1 / 2) = Inr (emitted s) \<and>
           2 * weights (emitted s) =
             real (length xs - 1) - real (units (discarded (ghost s)))"
proof -
  from rainflow_ok [OF assms]
  obtain s where run: "rainflow_run xs flm l_ult (1 / 2) = Inr s"
    and r: "rainflow xs flm l_ult (1 / 2) = Inr (emitted s)"
    and ok: "out_ok flm l_ult (1 / 2) (set xs) (length xs) s"
    and u: "units (ghost s) + 1 = length xs"
    by blast
  from ok have em: "emitted s = map (spec_cycle flm l_ult (1 / 2)) (kept (ghost s))"
    by (simp add: out_ok_def)
  have "2 * weights (emitted s) = real (units (kept (ghost s)))"
    unfolding em by (rule half_weights_units)
  moreover have "units (kept (ghost s)) + units (discarded (ghost s)) = length xs - 1"
    using units_kept_discarded [of "ghost s"] u by simp
  ultimately have "2 * weights (emitted s) =
      real (length xs - 1) - real (units (discarded (ghost s)))"
    by linarith
  with run r show ?thesis by blast
qed

text \<open>
  An instance: of the points \<open>1, 4, 4, 2, 2\<close> the full interval \<open>(4, 4)\<close> and the
  residual interval \<open>(2, 2)\<close> are discarded (three units), and the one half cycle left has
  twice its weight equal to \<open>4 - 3\<close>.
\<close>

theorem rainflow_weight_account_witness:
  "\<exists>s. rainflow_run [1, 4, 4, 2, 2] 0 (10 ^ 16) (1 / 2) = Inr s \<and>
     weights (emitted s) = 1 / 2 \<and>
     discarded (ghost s) = [(Full, 4, 4), (Residual, 2, 2)] \<and>
     2 * weights (emitted s) = real (length [1, 4, 4, 2, 2 :: real] - 1) - 3"
  using rainflow_weight_account [of "[1, 4, 4, 2, 2]" 0 "10 ^ 16"]
  by (simp add: rf_eval weights_def discarded_def units_def)

text \<open>
  C5 as stated fails on the reference signal: nothing is discarded, \<open>n - 1 = 8\<close>, and the
  weights sum to 4.
\<close>

theorem rainflow_weight_sum_counterexample:
  "\<exists>s. rainflow_run [3, - 2, 4, 2, 5, - 1, 1, 0, 3] 0 (10 ^ 16) (1 / 2) = Inr s \<and>
     discarded (ghost s) = [] \<and>
     weights (emitted s) = 4 \<and>
     weights (emitted s) \<noteq>
       real (length [3, - 2, 4, 2, 5, - 1, 1, 0, 3 :: real] - 1)
         - real (length (discarded (ghost s)))"
  by (simp add: rf_eval weights_def discarded_def)

section \<open>The fields of an emitted cycle\<close>

text \<open>
  C6: for every input of at least two points the call returns, and what it returns is,
  column by column and in the order of discovery, the cycle of every interval of positive
  range that the algorithm gives up on its stack (\<open>rainflow_intervals\<close>): for the
  interval with defining endpoints \<open>(p, q)\<close> the column has range \<open>|p - q|\<close>, mean
  \<open>(p + q) / 2\<close>, Goodman range \<open>range * (l_ult - |flm|) / (l_ult - |mean|)\<close> and
  zero-mean Goodman range \<open>range * l_ult / (l_ult - |mean|)\<close> (\<open>spec_cycle\<close>, the divisions
  being those of float64), and count 1 on the full path and the partial weight on the
  partial and the residual path.
\<close>

theorem rainflow_cycle_fields:
  assumes "2 \<le> length xs"
  shows "rainflow xs flm l_ult uc_mult =
     Inr (map (spec_cycle flm l_ult uc_mult) (kept (rainflow_intervals xs)))"
proof -
  from rainflow_run_sim [OF assms]
  obtain s where run: "rainflow_run xs flm l_ult uc_mult = Inr s"
    and ok: "out_ok flm l_ult uc_mult (set xs) (length xs) s"
    and g: "ghost s = rainflow_intervals xs"
    by blast
  from ok g have "emitted s = map (spec_cycle flm l_ult uc_mult) (kept (rainflow_intervals xs))"
    by (simp add: out_ok_def)
  with run show ?thesis by (simp add: rainflow_def ebind_def)
qed

text \<open>
  An instance that takes all three paths, with fixed-load mean 1 and ultimate load 10:
  the partial interval \<open>(3, -2)\<close>, the full interval \<open>(4, 2)\<close> and the residual
  intervals \<open>(-2, 5)\<close> and \<open>(5, 1)\<close>.
\<close>

theorem rainflow_cycle_fields_witness:
  "rainflow_intervals [3, - 2, 4, 2, 5, 1] =
     [(Partial, 3, - 2), (Full, 4, 2), (Residual, - 2, 5), (Residual, 5, 1)] \<and>
   rainflow [3, - 2, 4, 2, 5, 1] 1 10 (1 / 2) =
     Inr [\<lparr>load_range = 5, range_mean = 1 / 2, goodman_range = Fin (90 / 19),
           cycle_count = 1 / 2, goodman_zero_mean_range = Fin (100 / 19)\<rparr>,
          \<lparr>load_range = 2, range_mean = 3, goodman_range = Fin (18 / 7), cycle_count = 1,
           goodman_zero_mean_range = Fin (20 / 7)\<rparr>,
          \<lparr>load_range = 7, range_mean = 3 / 2, goodman_range = Fin (126 / 17),
           cycle_count = 1 / 2, goodman_zero_mean_range = Fin (140 / 17)\<rparr>,
          \<lparr>load_range = 4, range_mean = 3, goodman_range = Fin (36 / 7),
           cycle_count = 1 / 2, goodman_zero_mean_range = Fin (40 / 7)\<rparr>]"
proof -
  have iv: "rainflow_intervals [3, - 2, 4, 2, 5, 1] =
     [(Partial, 3, - 2), (Full, 4, 2), (Residual, - 2, 5), (Residual, 5, 1)]"
    by code_simp
  have "2 \<le> length [3, - 2, 4, 2, 5, 1 :: real]" by simp
  then have "rainflow [3, - 2, 4, 2, 5, 1] 1 10 (1 / 2) =
      Inr (map (spec_cycle 1 10 (1 / 2)) (kept (rainflow_intervals [3, - 2, 4, 2, 5, 1])))"
    by (rule rainflow_cycle_fields)
  then have "rainflow [3, - 2, 4, 2, 5, 1] 1 10 (1 / 2) =
     Inr [\<lparr>load_range = 5, range_mean = 1 / 2, goodman_range = Fin (90 / 19),
           cycle_count = 1 / 2, goodman_zero_mean_range = Fin (100 / 19)\<rparr>,
          \<lparr>load_range = 2, range_mean = 3, goodman_range = Fin (18 / 7), cycle_count = 1,
           goodman_zero_mean_range = Fin (20 / 7)\<rparr>,
          \<lparr>load_range = 7, range_mean = 3 / 2, goodman_range = Fin (126 / 17),
           cycle_count = 1 / 2, goodman_zero_mean_range = Fin (140 / 17)\<rparr>,
          \<lparr>load_range = 4, range_mean = 3, goodman_range = Fin (36 / 7),
           cycle_count = 1 / 2, goodman_zero_mean_range = Fin (40 / 7)\<rparr>]"
    unfolding iv by (simp add: kept_def spec_cycle_def fdiv_def)
  with iv show ?thesis by (rule conjI)
qed

section \<open>Ranges of the emitted cycles\<close>

text \<open>
  C7: for every input of at least two points the call returns, and every cycle it
  returns has a range greater than zero. Intervals of range zero are dropped in the
  partial, the full and the residual path alike. (Shorter inputs emit nothing.)
\<close>

theorem rainflow_ranges_positive:
  assumes "2 \<le> length xs"
  shows "\<exists>cs. rainflow xs flm l_ult uc_mult = Inr cs \<and> (\<forall>c \<in> set cs. 0 < load_range c)"
proof -
  from rainflow_ok [OF assms]
  obtain s where r: "rainflow xs flm l_ult uc_mult = Inr (emitted s)"
    and ok: "out_ok flm l_ult uc_mult (set xs) (length xs) s"
    by blast
  from ok have em: "emitted s = map (spec_cycle flm l_ult uc_mult) (kept (ghost s))"
    by (simp add: out_ok_def)
  have "\<forall>c \<in> set (emitted s). 0 < load_range c"
  proof
    fix c assume "c \<in> set (emitted s)"
    with em obtain iv where iv: "iv \<in> set (kept (ghost s))"
      and c: "c = spec_cycle flm l_ult uc_mult iv" by auto
    from iv have "0 < \<bar>fst (snd iv) - snd (snd iv)\<bar>" by (rule kept_positive)
    with c show "0 < load_range c" by (simp add: spec_cycle_def split_beta)
  qed
  with r show ?thesis by blast
qed

text \<open>
  An instance with a discarded interval: of the points \<open>1, 4, 4, 2\<close> the full cycle
  \<open>(4, 4)\<close> has range zero and is dropped; the one cycle returned, the residual
  \<open>(1, 2)\<close>, has a positive range.
\<close>

theorem rainflow_ranges_positive_witness:
  "\<exists>c. rainflow [1, 4, 4, 2] 0 (10 ^ 16) (1 / 2) = Inr [c] \<and> 0 < load_range c"
  using rainflow_ranges_positive [of "[1, 4, 4, 2]" 0 "10 ^ 16" "1 / 2"]
  by (simp add: rf_eval)

section \<open>The size of the working stack\<close>

text \<open>
  C8, as the code has it. The stack is not bounded by three. For an input of at least
  two points, after the \<open>k\<close>-th push and the while loop that follows it, the stack
  holds at least one and at most \<open>k\<close> points, all of them among the first \<open>k\<close> input
  points, and the guard of the while loop is false: if three or more points are left,
  the three most recent have \<open>|A - B| > |B - C|\<close>.
\<close>

theorem stack_after_pushes:
  assumes n2: "2 \<le> length xs" and k1: "1 \<le> k" and kn: "k \<le> length xs"
  shows "\<exists>s. after_pushes xs flm l_ult uc_mult k = Inr s \<and>
           1 \<le> length (stack s) \<and> length (stack s) \<le> k \<and>
           set (stack s) \<subseteq> set (take k xs) \<and> \<not> closes s"
proof -
  let ?n = "length xs" and ?X = "set (take k xs)"
  from k1 n2 have ne: "take k xs \<noteq> []" by auto
  from kn have lk: "0 + length (take k xs) \<le> ?n" by simp
  from main_loop_ok [OF n2 init_ok(1) init_ok(2) init_ok(3) lk subset_refl ne]
  obtain s where m: "main_loop (l_ult - \<bar>flm\<bar>) l_ult uc_mult (take k xs) (init ?n) = Inr s"
    and st: "stack_ok ?X ?n s"
    and cnt: "int (units (ghost s)) + idx_j s + 1 = int (0 + length (take k xs))"
    and j0: "0 \<le> idx_j s" and nc: "\<not> closes s"
    by blast
  from st have len: "length (tmp_a s) = ?n" and jn: "idx_j s < int ?n"
    and inX: "\<And>i. int i \<le> idx_j s \<Longrightarrow> tmp_a s ! i \<in> ?X"
    by (simp_all add: stack_ok_def)
  from len jn j0 have ls: "length (stack s) = nat (idx_j s + 1)"
    by (simp add: stack_def)
  from cnt kn have "idx_j s + 1 \<le> int k" by simp
  with ls j0 have b: "1 \<le> length (stack s)" "length (stack s) \<le> k" by simp_all
  have "set (stack s) \<subseteq> ?X"
  proof
    fix v assume "v \<in> set (stack s)"
    then obtain i where i: "i < length (stack s)" and v: "v = stack s ! i"
      by (auto simp: in_set_conv_nth)
    from i ls have "int i \<le> idx_j s" by simp
    then have "tmp_a s ! i \<in> ?X" by (rule inX)
    moreover from i ls have "stack s ! i = tmp_a s ! i" by (simp add: stack_def)
    ultimately show "v \<in> ?X" using v by simp
  qed
  with m b nc show ?thesis by (auto simp: after_pushes_def)
qed

text \<open>
  An instance: after five points of the reference signal the stack is \<open>-2, 5\<close>.
\<close>

theorem stack_after_pushes_witness:
  "\<exists>s. after_pushes [3, - 2, 4, 2, 5, - 1, 1, 0, 3] 0 (10 ^ 16) (1 / 2) 5 = Inr s \<and>
     stack s = [- 2, 5] \<and> \<not> closes s"
  using stack_after_pushes [of "[3, - 2, 4, 2, 5, - 1, 1, 0, 3]" 5 0 "10 ^ 16" "1 / 2"]
  by (simp add: rf_eval closes_def)

text \<open>
  C8 as stated fails: after eight points of the reference signal, the while loop done,
  the stack holds five points.
\<close>

theorem stack_exceeds_three:
  "\<exists>s. after_pushes [3, - 2, 4, 2, 5, - 1, 1, 0, 3] 0 (10 ^ 16) (1 / 2) 8 = Inr s \<and>
     stack s = [- 2, 5, - 1, 1, 0] \<and> \<not> length (stack s) \<le> 3"
  by (simp add: rf_eval)

section \<open>The aggregator\<close>

text \<open>
  C9, as the code has it. Given both tables of turning points non-empty,
  \<^verbatim>\<open>rainflow_process\<close> returns; \<open>mean_soc\<close> is the arithmetic mean of the whole series
  divided by 100, and the ranges and the means of the cycles (sorted by range) are
  divided by 100 as well, while the counts are left as they are. The factor 100 is fixed
  in the code; the caller supplies no scale factor.
\<close>

theorem rainflow_process_scaling:
  assumes mn: "min_points self \<noteq> []" and mx: "max_points self \<noteq> []"
  shows "\<exists>r cs. rainflow_process self = Inr r \<and>
     rainflow (map snd (sort_key fst (min_points self @ max_points self)))
       0 (10 ^ 16) (1 / 2) = Inr cs \<and>
     mean_soc r = div100 (np_mean (data_series self)) \<and>
     (data_series self \<noteq> [] \<longrightarrow>
        mean_soc r =
          Fin (sum_list (data_series self) / real (length (data_series self)) / 100)) \<and>
     arr_dod r = map (\<lambda>c. load_range c / 100) (sort_key load_range cs) \<and>
     arr_n r = map cycle_count (sort_key load_range cs) \<and>
     arr_soc_mean r = map (\<lambda>c. range_mean c / 100) (sort_key load_range cs)"
proof -
  let ?ext = "map snd (sort_key fst (min_points self @ max_points self))"
  from mn mx have "1 \<le> length (min_points self)" and "1 \<le> length (max_points self)"
    by (simp_all add: Suc_le_eq)
  then have "2 \<le> length ?ext" by simp
  from rainflow_ok [OF this]
  obtain s where r: "rainflow ?ext 0 (10 ^ 16) (1 / 2) = Inr (emitted s)"
    by blast
  let ?cs = "sort_key load_range (emitted s)"
  let ?r = "\<lparr>mean_soc = div100 (np_mean (data_series self)),
             arr_dod = map (\<lambda>c. load_range c / 100) ?cs,
             arr_n = map cycle_count ?cs,
             arr_soc_mean = map (\<lambda>c. range_mean c / 100) ?cs\<rparr>"
  from mn mx r have p: "rainflow_process self = Inr ?r"
    by (simp add: rainflow_process_def ebind_def Let_def)
  have "data_series self \<noteq> [] \<longrightarrow>
        mean_soc ?r =
          Fin (sum_list (data_series self) / real (length (data_series self)) / 100)"
    by (simp add: np_mean_def div100_def)
  with p r show ?thesis by simp
qed

text \<open>
  An instance: the series \<open>50, 90, 30, 70\<close> has mean 60 and \<open>mean_soc\<close> 0.6.
\<close>

theorem rainflow_process_scaling_witness:
  "\<exists>r. rainflow_process \<lparr>data_series = [50, 90, 30, 70],
          min_points = [(2, 30)], max_points = [(1, 90), (3, 70)]\<rparr> = Inr r \<and>
     mean_soc r = Fin (3 / 5) \<and> arr_dod r = [2 / 5, 3 / 5] \<and> arr_n r = [1 / 2, 1 / 2] \<and>
     arr_soc_mean r = [1 / 2, 3 / 5]"
  using rainflow_process_scaling [of "\<lparr>data_series = [50, 90, 30, 70],
          min_points = [(2, 30)], max_points = [(1, 90), (3, 70)]\<rparr>"]
  by (simp add: rainflow_process_def np_mean_def div100_def rf_eval)

text \<open>
  C9 as stated fails: for the series \<open>80, 20, 80, 20\<close> the arithmetic mean is 50 and
  \<open>mean_soc\<close> is 0.5; the range 60 comes out as 0.6.
\<close>

theorem rainflow_process_divides_by_100:
  "\<exists>r. rainflow_process \<lparr>data_series = [80, 20, 80, 20],
          min_points = [(1, 20)], max_points = [(2, 80)]\<rparr> = Inr r \<and>
     np_mean [80, 20, 80, 20] = Fin 50 \<and> mean_soc r = Fin (1 / 2) \<and>
     mean_soc r \<noteq> np_mean [80, 20, 80, 20] \<and>
     arr_dod r = [3 / 5] \<and> arr_soc_mean r = [1 / 2]"
  by (simp add: rainflow_process_def np_mean_def div100_def rf_eval)

section \<open>The output buffer\<close>

text \<open>
  C10. For an input of at least two points the call returns; no write went outside the
  buffer of \<open>n - 1\<close> columns (such a write raises in \<open>emit\<close>), \<open>po\<close> is at most
  \<open>n - 1\<close> and the array returned has \<open>po\<close> columns. For an input of one point, which
  the claim includes, the call writes nothing and returns nothing: it raises
  \<open>IndexError\<close> in the guard of the while loop.
\<close>

theorem rainflow_output_bound:
  "(length xs = 1 \<longrightarrow> rainflow xs flm l_ult uc_mult = Inl IndexError) \<and>
   (2 \<le> length xs \<longrightarrow>
      (\<exists>s. rainflow_run xs flm l_ult uc_mult = Inr s \<and>
           rainflow xs flm l_ult uc_mult = Inr (emitted s) \<and>
           length (array_out s) = length xs - 1 \<and>
           idx_po s \<le> length xs - 1 \<and>
           length (emitted s) = idx_po s))"
proof (intro conjI impI)
  assume "length xs = 1"
  then obtain x where "xs = [x]" by (cases xs) auto
  then show "rainflow xs flm l_ult uc_mult = Inl IndexError"
    by (simp add: rf_eval)
next
  assume "2 \<le> length xs"
  from rainflow_ok [OF this]
  obtain s where run: "rainflow_run xs flm l_ult uc_mult = Inr s"
    and r: "rainflow xs flm l_ult uc_mult = Inr (emitted s)"
    and ok: "out_ok flm l_ult uc_mult (set xs) (length xs) s"
    and u: "units (ghost s) + 1 = length xs"
    by blast
  from ok have len: "length (array_out s) = length xs - 1"
    and po: "idx_po s = length (kept (ghost s))"
    by (simp_all add: out_ok_def)
  have "length (kept (ghost s)) \<le> units (ghost s)" by (rule length_kept_le_units)
  with po u have b: "idx_po s \<le> length xs - 1" by simp
  with len have "length (emitted s) = idx_po s" by (simp add: emitted_def)
  with run r len b
  show "\<exists>s. rainflow_run xs flm l_ult uc_mult = Inr s \<and>
           rainflow xs flm l_ult uc_mult = Inr (emitted s) \<and>
           length (array_out s) = length xs - 1 \<and>
           idx_po s \<le> length xs - 1 \<and>
           length (emitted s) = idx_po s"
    by blast
qed

text \<open>
  An instance of each part: one point, and the three points \<open>1, 3, 2\<close> whose two
  residual half cycles fill the buffer of two columns.
\<close>

theorem rainflow_output_bound_witness:
  "rainflow [7] 0 (10 ^ 16) (1 / 2) = Inl IndexError \<and>
   (\<exists>s. rainflow_run [1, 3, 2] 0 (10 ^ 16) (1 / 2) = Inr s \<and>
        length (array_out s) = 2 \<and> idx_po s = 2 \<and> length (emitted s) = 2)"
  using rainflow_output_bound [of "[7]" 0 "10 ^ 16" "1 / 2"]
    rainflow_output_bound [of "[1, 3, 2]" 0 "10 ^ 16" "1 / 2"]
  by (simp add: rf_eval)

end
